theory Spec2Isabelle
  imports Main "HOL-Library.AList" "HOL-Library.Char_ord" "HOL-Library.List_Lexorder"
    "HOL-Library.Multiset" "HOL-Library.Sublist"
begin

section \<open>Strings and paths\<close>

text \<open>
  JavaScript strings are modelled as \<^typ>\<open>string\<close>; a character stands for a UTF-16 code
  unit below 256, that is a character of Latin-1. \<open>String.prototype.split\<close> with a
  one-character separator, \<open>Array.prototype.join\<close>, lodash's \<open>_.compact\<close> on an array of
  strings (the only falsy string is the empty one) and \<open>toLowerCase\<close>, which on these
  characters works one by one: the letters \<open>A\<close> to \<open>Z\<close> and the capitals from U+00C0 to
  U+00DE other than the multiplication sign U+00D7 move up by 32.
\<close>

fun split_on :: "char \<Rightarrow> string \<Rightarrow> string list" where
  "split_on c [] = [[]]"
| "split_on c (x # xs) =
     (if x = c then [] # split_on c xs
      else (case split_on c xs of [] \<Rightarrow> [[x]] | y # ys \<Rightarrow> (x # y) # ys))"

fun join_with :: "string \<Rightarrow> string list \<Rightarrow> string" where
  "join_with sep [] = []"
| "join_with sep [x] = x"
| "join_with sep (x # y # ys) = x @ sep @ join_with sep (y # ys)"

definition compact :: "string list \<Rightarrow> string list" where
  "compact xs = filter (\<lambda>s. s \<noteq> []) xs"

definition toLowerChar :: "char \<Rightarrow> char" where
  "toLowerChar c =
     (let n = (of_char c :: nat)
      in if (65 \<le> n \<and> n \<le> 90) \<or> (192 \<le> n \<and> n \<le> 222 \<and> n \<noteq> 215)
         then char_of (n + 32) else c)"

definition toLowerCase :: "string \<Rightarrow> string" where
  "toLowerCase s = map toLowerChar s"

text \<open>
  Node's \<open>path.parse\<close> for POSIX paths (\<open>path.sep = "/"\<close>): trailing separators are
  ignored, \<open>base\<close> is the last segment, \<open>dir\<close> is what precedes the separator in front
  of it (\<open>"/"\<close> for a segment directly under the root), and \<open>ext\<close> starts at the last
  dot of \<open>base\<close> unless that dot is its first character or \<open>base\<close> is \<open>".."\<close>. Node
  recognises \<open>".."\<close> by its offset from the separator in front of it, and misses it when
  that separator is the root: \<open>"/.."\<close> has the name \<open>"."\<close> and the extension \<open>"."\<close>.
\<close>

record parsed_path =
  pp_root :: string
  pp_dir :: string
  pp_base :: string
  pp_ext :: string
  pp_name :: string

definition path_parse :: "string \<Rightarrow> parsed_path" where
  "path_parse p =
     (if p = [] then \<lparr>pp_root = [], pp_dir = [], pp_base = [], pp_ext = [], pp_name = []\<rparr>
      else
        let root = (if hd p = CHR ''/'' then ''/'' else []);
            t = rev (dropWhile (\<lambda>c. c = CHR ''/'') (rev p));
            base = rev (takeWhile (\<lambda>c. c \<noteq> CHR ''/'') (rev t));
            rest = take (length t - length base) t;
            dir = (if t = [] then root
                   else if rest = [] then []
                   else if rest = ''/'' then ''/''
                   else butlast rest);
            e = rev (takeWhile (\<lambda>c. c \<noteq> CHR ''.'') (rev base));
            n = take (length base - length e - 1) base
        in if CHR ''.'' \<notin> set base \<or> n = [] \<or> (base = ''..'' \<and> rest \<noteq> ''/'')
           then \<lparr>pp_root = root, pp_dir = dir, pp_base = base, pp_ext = [], pp_name = base\<rparr>
           else \<lparr>pp_root = root, pp_dir = dir, pp_base = base,
                 pp_ext = CHR ''.'' # e, pp_name = n\<rparr>)"

subsection \<open>urlPathFromFilePath\<close>

definition urlPathFromFilePath :: "string \<Rightarrow> string" where
  "urlPathFromFilePath filePath =
     (let pathObject = path_parse filePath;
          parts = compact (split_on CHR ''/'' (pp_dir pathObject));
          parts' = (if pp_name pathObject \<noteq> ''index'' then parts @ [pp_name pathObject]
                    else parts);
          urlPath = toLowerCase (join_with ''/'' parts')
      in CHR ''/'' # urlPath)"

section \<open>JavaScript values\<close>

text \<open>
  Parsed content (YAML, JSON, TOML, front matter) and the models of \<open>stackbit.yaml\<close> are
  plain JavaScript data. A plain object is an association list in key order; a
  well-formed one has distinct keys. \<open>undefined\<close> is not a value of parsed data: a
  lookup that may give \<open>undefined\<close> returns \<^typ>\<open>'a option\<close>.
\<close>

datatype json =
    JNull
  | JBool bool
  | JNum int
  | JStr string
  | JArr "json list"
  | JObj "(string \<times> json) list"

datatype exn = TypeError

fun show_nat :: "nat \<Rightarrow> string" where
  "show_nat n =
     (if n < 10 then [''0123456789'' ! n]
      else show_nat (n div 10) @ [''0123456789'' ! (n mod 10)])"

declare show_nat.simps [simp del]

definition show_int :: "int \<Rightarrow> string" where
  "show_int i = (if i < 0 then CHR ''-'' # show_nat (nat (- i)) else show_nat (nat i))"

definition digit_val :: "char \<Rightarrow> nat option" where
  "digit_val c = map_of (zip ''0123456789'' [0 ..< 10]) c"

definition index_of_key :: "string \<Rightarrow> nat option" where
  "index_of_key k =
     (if k \<noteq> [] \<and> (\<forall>c \<in> set k. digit_val c \<noteq> None)
      then (let n = fold (\<lambda>c a. 10 * a + the (digit_val c)) k 0
            in if show_nat n = k then Some n else None)
      else None)"

text \<open>\<open>String(v)\<close>, which is also how a value used as a property key is converted.\<close>

fun toStr :: "json \<Rightarrow> string"
  and toStr_elems :: "json list \<Rightarrow> string" where
  "toStr JNull = ''null''"
| "toStr (JBool b) = (if b then ''true'' else ''false'')"
| "toStr (JNum i) = show_int i"
| "toStr (JStr s) = s"
| "toStr (JArr xs) = toStr_elems xs"
| "toStr (JObj kvs) = ''[object Object]''"
| "toStr_elems [] = []"
| "toStr_elems [x] = (if x = JNull then [] else toStr x)"
| "toStr_elems (x # y # ys) = (if x = JNull then [] else toStr x) @ '','' @ toStr_elems (y # ys)"

definition toKeyStr :: "json option \<Rightarrow> string" where
  "toKeyStr v = (case v of None \<Rightarrow> ''undefined'' | Some j \<Rightarrow> toStr j)"

text \<open>
  \<open>v[k]\<close> on a value that is not \<open>null\<close>: the own properties of a plain object, the
  indices and \<open>length\<close> of an array or a string. Properties inherited from the built-in
  prototypes are not part of the model; where a key is free (the id of an object, a
  segment of a file path), the theorems name the inherited properties that they exclude.
\<close>

definition jprop :: "json \<Rightarrow> string \<Rightarrow> json option" where
  "jprop v k =
     (case v of
        JObj kvs \<Rightarrow> map_of kvs k
      | JArr xs \<Rightarrow>
          (if k = ''length'' then Some (JNum (int (length xs)))
           else (case index_of_key k of
                   Some i \<Rightarrow> if i < length xs then Some (xs ! i) else None
                 | None \<Rightarrow> None))
      | JStr s \<Rightarrow>
          (if k = ''length'' then Some (JNum (int (length s)))
           else (case index_of_key k of
                   Some i \<Rightarrow> if i < length s then Some (JStr [s ! i]) else None
                 | None \<Rightarrow> None))
      | _ \<Rightarrow> None)"

definition isPlainObject :: "json \<Rightarrow> bool" where
  "isPlainObject v = (case v of JObj kvs \<Rightarrow> True | _ \<Rightarrow> False)"

definition isArray :: "json \<Rightarrow> bool" where
  "isArray v = (case v of JArr xs \<Rightarrow> True | _ \<Rightarrow> False)"

definition truthy :: "json option \<Rightarrow> bool" where
  "truthy v =
     (case v of
        None \<Rightarrow> False
      | Some JNull \<Rightarrow> False
      | Some (JBool b) \<Rightarrow> b
      | Some (JNum i) \<Rightarrow> i \<noteq> 0
      | Some (JStr s) \<Rightarrow> s \<noteq> []
      | Some _ \<Rightarrow> True)"

definition isNil :: "json option \<Rightarrow> bool" where
  "isNil v = (v = None \<or> v = Some JNull)"

subsection \<open>lodash paths: \<open>_.get\<close>, \<open>_.has\<close>\<close>

text \<open>
  A path argument is an array of keys or a single value. A string is used as one key
  when it consists of word characters (\<open>reIsPlainProp\<close>), when it has no path syntax
  (\<open>reIsDeepProp\<close>), or when it is a key of the object itself; otherwise \<open>stringToPath\<close>
  reads it as a path.
\<close>

definition word_chars :: string where
  "word_chars = ''abcdefghijklmnopqrstuvwxyzABCDEFGHIJKLMNOPQRSTUVWXYZ0123456789_''"

definition reIsPlainProp :: "string \<Rightarrow> bool" where
  "reIsPlainProp s = (\<forall>c \<in> set s. c \<in> set word_chars)"

definition reIsDeepProp :: "string \<Rightarrow> bool" where
  "reIsDeepProp s =
     (CHR ''.'' \<in> set s \<or>
      CHR '']'' \<in> set (dropWhile (\<lambda>c. c \<noteq> CHR ''['') s))"

definition in_object :: "string \<Rightarrow> json \<Rightarrow> bool" where
  "in_object k obj = (jprop obj k \<noteq> None)"

definition isKey :: "string \<Rightarrow> json \<Rightarrow> bool" where
  "isKey s obj = (reIsPlainProp s \<or> \<not> reIsDeepProp s \<or> in_object s obj)"

text \<open>
  \<open>stringToPath\<close> pushes an empty key when the string starts with a dot and then one
  key for every match of \<open>rePropName\<close>, scanning from left to right. A match is, in
  this order of preference: a run of characters other than \<open>.\<close>, \<open>[\<close> and \<open>]\<close>; a
  bracketed number \<open>[-1.5]\<close>, whose key is the text of the number; a bracketed quoted
  string \<open>["a.b"]\<close>, whose key is the text between the quotes with the escaping
  backslashes removed; or the empty string in front of a \<open>.\<close> or \<open>[]\<close> that is followed by
  a \<open>.\<close>, a \<open>[]\<close> or the end. After an empty match the scan moves on by one character.
\<close>

definition is_digit :: "char \<Rightarrow> bool" where
  "is_digit c = (c \<in> set ''0123456789'')"

definition plain_char :: "char \<Rightarrow> bool" where
  "plain_char c = (c \<noteq> CHR ''.'' \<and> c \<noteq> CHR ''['' \<and> c \<noteq> CHR '']'')"

definition line_terminator :: "char \<Rightarrow> bool" where
  "line_terminator c = (c = CHR 0x0A \<or> c = CHR 0x0D)"

text \<open>
  The text after an opening bracket: \<open>-?\d+(?:\.\d+)?\<close> followed by \<open>]\<close>. The result is
  the number as written and what follows the closing bracket.
\<close>

definition bracket_number :: "string \<Rightarrow> (string \<times> string) option" where
  "bracket_number s =
     (let sgn = (if take 1 s = ''-'' then ''-'' else []);
          s1 = drop (length sgn) s;
          ds = takeWhile is_digit s1;
          s2 = dropWhile is_digit s1;
          fr = (if take 1 s2 = ''.'' \<and> takeWhile is_digit (drop 1 s2) \<noteq> []
                then CHR ''.'' # takeWhile is_digit (drop 1 s2) else []);
          s3 = drop (length fr) s2
      in if ds \<noteq> [] \<and> take 1 s3 = '']'' then Some (sgn @ ds @ fr, drop 1 s3) else None)"

text \<open>
  The text after an opening bracket and the quote \<open>q\<close>: characters other than \<open>q\<close> and
  the backslash, or a backslash and one character that is not a line terminator, up to
  the first \<open>q\<close>, which must be followed by \<open>]\<close>.
\<close>

fun bracket_quoted :: "char \<Rightarrow> string \<Rightarrow> (string \<times> string) option" where
  "bracket_quoted q [] = None"
| "bracket_quoted q [c] = None"
| "bracket_quoted q (c # d # r) =
     (if c = q then (if d = CHR '']'' then Some ([], r) else None)
      else if c = CHR 0x5C then
        (if line_terminator d then None
         else map_option (\<lambda>(sub, rest). (c # d # sub, rest)) (bracket_quoted q r))
      else map_option (\<lambda>(sub, rest). (c # sub, rest)) (bracket_quoted q (d # r)))"

text \<open>\<open>subString.replace(reEscapeChar, '$1')\<close> with \<open>reEscapeChar = /\\(\\)?/g\<close>.\<close>

fun unescape :: "string \<Rightarrow> string" where
  "unescape [] = []"
| "unescape [c] = (if c = CHR 0x5C then [] else [c])"
| "unescape (c # d # r) =
     (if c = CHR 0x5C then (if d = CHR 0x5C then d # unescape r else unescape (d # r))
      else c # unescape (d # r))"

definition bracket_key :: "string \<Rightarrow> (string \<times> string) option" where
  "bracket_key s =
     (case bracket_number s of
        Some r \<Rightarrow> Some r
      | None \<Rightarrow>
          (case s of
             [] \<Rightarrow> None
           | q # r \<Rightarrow>
               if q = CHR 0x22 \<or> q = CHR 0x27
               then map_option (\<lambda>(sub, rest). (unescape sub, rest)) (bracket_quoted q r)
               else None))"

text \<open>The look-ahead \<open>(?=(?:\.|\[\])(?:\.|\[\]|$))\<close>.\<close>

definition empty_key_ahead :: "string \<Rightarrow> bool" where
  "empty_key_ahead s =
     (let t = (if take 1 s = ''.'' then Some (drop 1 s)
               else if take 2 s = ''[]'' then Some (drop 2 s) else None)
      in case t of
           None \<Rightarrow> False
         | Some u \<Rightarrow> u = [] \<or> take 1 u = ''.'' \<or> take 2 u = ''[]'')"

lemma bracket_quoted_shorter:
  "bracket_quoted q s = Some (k, rest) \<Longrightarrow> length rest < length s"
  by (induction q s arbitrary: k rule: bracket_quoted.induct)
     (auto split: if_splits simp: less_Suc_eq)

lemma bracket_key_shorter:
  "bracket_key s = Some (k, rest) \<Longrightarrow> length rest \<le> length s"
proof (cases "bracket_number s")
  case None
  then show "bracket_key s = Some (k, rest) \<Longrightarrow> length rest \<le> length s"
    by (cases s) (auto simp: bracket_key_def split: if_splits dest: bracket_quoted_shorter)
next
  case (Some r)
  assume "bracket_key s = Some (k, rest)"
  then have "bracket_number s = Some (k, rest)" using Some by (simp add: bracket_key_def)
  then have "rest = drop 1 (drop (length (if take 1 (dropWhile is_digit (drop (length (if take 1 s = ''-'' then ''-'' else [])) s)) = ''.'' \<and> takeWhile is_digit (drop 1 (dropWhile is_digit (drop (length (if take 1 s = ''-'' then ''-'' else [])) s))) \<noteq> [] then CHR ''.'' # takeWhile is_digit (drop 1 (dropWhile is_digit (drop (length (if take 1 s = ''-'' then ''-'' else [])) s))) else [])) (dropWhile is_digit (drop (length (if take 1 s = ''-'' then ''-'' else [])) s)))"
    by (simp add: bracket_number_def Let_def split: if_splits)
  then have "length rest \<le> length (dropWhile is_digit (drop (length (if take 1 s = ''-'' then ''-'' else [])) s))"
    by simp
  also have "\<dots> \<le> length (drop (length (if take 1 s = ''-'' then ''-'' else [])) s)"
    by (rule length_dropWhile_le)
  also have "\<dots> \<le> length s" by simp
  finally show "length rest \<le> length s" .
qed

function prop_names :: "string \<Rightarrow> string list" where
  "prop_names [] = []"
| "prop_names (c # r) =
     (if plain_char c then
        takeWhile plain_char (c # r) # prop_names (dropWhile plain_char r)
      else
        (case (if c = CHR ''['' then bracket_key r else None) of
           Some (k, rest) \<Rightarrow> k # prop_names rest
         | None \<Rightarrow> if empty_key_ahead (c # r) then [] # prop_names r else prop_names r))"
  by pat_completeness auto
termination
proof (relation "measure length")
  fix c r
  show "(dropWhile plain_char r, c # r) \<in> measure length"
    using length_dropWhile_le[of plain_char r] by simp
next
  fix c r x2 x y
  assume "(if c = CHR ''['' then bracket_key r else None) = Some x2" "(x, y) = x2"
  then have "bracket_key r = Some (x, y)" by (auto split: if_splits)
  then show "(y, c # r) \<in> measure length" using bracket_key_shorter by fastforce
qed simp_all

definition stringToPath :: "string \<Rightarrow> string list" where
  "stringToPath s = (if take 1 s = ''.'' then [[]] else []) @ prop_names s"

definition castPath :: "json option \<Rightarrow> json \<Rightarrow> string list" where
  "castPath v obj =
     (case v of
        Some (JArr ks) \<Rightarrow> map toStr ks
      | Some (JStr s) \<Rightarrow> if isKey s obj then [s] else stringToPath s
      | Some (JObj kvs) \<Rightarrow>
          if in_object (toStr (JObj kvs)) obj then [toStr (JObj kvs)]
          else stringToPath (toStr (JObj kvs))
      | _ \<Rightarrow> [toKeyStr v])"

fun baseGet :: "json option \<Rightarrow> string list \<Rightarrow> json option" where
  "baseGet v [] = v"
| "baseGet None (k # ks) = None"
| "baseGet (Some JNull) (k # ks) = None"
| "baseGet (Some v) (k # ks) = baseGet (jprop v k) ks"

definition get_path :: "json \<Rightarrow> string list \<Rightarrow> json option" where
  "get_path obj p = (if p = [] then None else baseGet (Some obj) p)"

fun hasPath :: "json option \<Rightarrow> string list \<Rightarrow> bool" where
  "hasPath v [] = True"
| "hasPath None (k # ks) = False"
| "hasPath (Some v) (k # ks) = (jprop v k \<noteq> None \<and> hasPath (jprop v k) ks)"

definition has_path :: "json \<Rightarrow> string list \<Rightarrow> bool" where
  "has_path obj p = (p \<noteq> [] \<and> hasPath (Some obj) p)"

text \<open>A configured key path: a string such as \<open>__metadata.id\<close> or an array of keys.\<close>

datatype keypath = PStr string | PArr "string list"

definition get :: "json \<Rightarrow> keypath \<Rightarrow> json option" where
  "get obj p =
     (case p of
        PStr s \<Rightarrow> get_path obj (castPath (Some (JStr s)) obj)
      | PArr ks \<Rightarrow> get_path obj ks)"

definition has :: "json \<Rightarrow> json option \<Rightarrow> bool" where
  "has obj v = has_path obj (castPath v obj)"

subsection \<open>\<open>_.assign\<close>, \<open>_.find\<close>\<close>

definition obj_update :: "string \<Rightarrow> json \<Rightarrow> (string \<times> json) list \<Rightarrow> (string \<times> json) list" where
  "obj_update k v kvs = AList.update k v kvs"

definition own_entries :: "json option \<Rightarrow> (string \<times> json) list" where
  "own_entries src =
     (case src of
        Some (JObj kvs) \<Rightarrow> kvs
      | Some (JArr xs) \<Rightarrow> zip (map show_nat [0 ..< length xs]) xs
      | Some (JStr s) \<Rightarrow> zip (map show_nat [0 ..< length s]) (map (\<lambda>c. JStr [c]) s)
      | _ \<Rightarrow> [])"

definition assign :: "(string \<times> json) list \<Rightarrow> json option \<Rightarrow> (string \<times> json) list" where
  "assign target src = fold (\<lambda>(k, v) t. obj_update k v t) (own_entries src) target"

definition elements :: "json \<Rightarrow> json list" where
  "elements c = (case c of JArr xs \<Rightarrow> xs | JObj kvs \<Rightarrow> map snd kvs | _ \<Rightarrow> [])"

definition find_by_name :: "json \<Rightarrow> string \<Rightarrow> json option" where
  "find_by_name flds fieldName =
     List.find (\<lambda>e. jprop e ''name'' = Some (JStr fieldName)) (elements flds)"

section \<open>The models matcher\<close>

subsection \<open>Diagnostics\<close>

text \<open>
  \<open>log\<close> and \<open>logError\<close> write to the console; the model collects what is written, in
  order. The \<open>location\<close> of a message is the file path, the data path and the schema
  path that the source renders into the message text.
\<close>

datatype seg = SKey string | SIdx nat | SVal "json option"

record location =
  loc_file :: "json option"
  loc_data :: "seg list"
  loc_model :: "seg list"

datatype diag =
    Info_Matching
  | Info_Count nat nat
  | Info_MatchedModels "(json option \<times> string) list"
  | MatchError string
  | ValueMustBeObject location
  | ModelsPropertyInvalid location
  | ModelsNameUnknown location
  | TypePropertyMissing location
  | TypePropertyUnknown location
  | ListMustBeArray location

text \<open>The taxonomy of the specification: shape errors and schema errors.\<close>

fun isShapeError :: "diag \<Rightarrow> bool" where
  "isShapeError (ValueMustBeObject l) = True"
| "isShapeError (ListMustBeArray l) = True"
| "isShapeError d = False"

fun isSchemaError :: "diag \<Rightarrow> bool" where
  "isSchemaError (ModelsPropertyInvalid l) = True"
| "isSchemaError (ModelsNameUnknown l) = True"
| "isSchemaError (TypePropertyMissing l) = True"
| "isSchemaError (TypePropertyUnknown l) = True"
| "isSchemaError d = False"

type_synonym 'a res = "exn + ('a \<times> diag list)"

record ctx =
  cx_filePath :: "json option"
  cx_modelsByName :: json
  cx_dataFieldPath :: "seg list"
  cx_modelFieldPath :: "seg list"

definition location_of :: "ctx \<Rightarrow> seg list \<Rightarrow> location" where
  "location_of cx mfp =
     \<lparr>loc_file = cx_filePath cx, loc_data = cx_dataFieldPath cx, loc_model = mfp\<rparr>"

subsection \<open>addMetadata and mapObjectField\<close>

definition omitBy_isNil :: "(string \<times> json option) list \<Rightarrow> (string \<times> json) list" where
  "omitBy_isNil kvs = map (\<lambda>(k, v). (k, the v)) (filter (\<lambda>(k, v). \<not> isNil v) kvs)"

text \<open>
  The computed metadata of \<open>addMetadata\<close>. Reading \<open>model.type\<close> of a missing model
  and \<open>path.parse\<close> of a file path that is not a string raise \<open>TypeError\<close>.
\<close>

definition computed_metadata :: "json option \<Rightarrow> json option \<Rightarrow> exn + (string \<times> json) list" where
  "computed_metadata model fp =
     (case model of
        None \<Rightarrow> Inl TypeError
      | Some JNull \<Rightarrow> Inl TypeError
      | Some m \<Rightarrow>
          if jprop m ''type'' = Some (JStr ''page'')
          then (case fp of
                  Some (JStr p) \<Rightarrow>
                    Inr (omitBy_isNil
                      [(''modelType'', jprop m ''type''),
                       (''modelName'', jprop m ''name''),
                       (''modelLabel'', jprop m ''label''),
                       (''urlPath'', Some (JStr (urlPathFromFilePath p)))])
                | _ \<Rightarrow> Inl TypeError)
          else Inr (omitBy_isNil
                 [(''modelType'', jprop m ''type''),
                  (''modelName'', jprop m ''name''),
                  (''modelLabel'', jprop m ''label''),
                  (''urlPath'', Some JNull)]))"

definition with_metadata :: "(string \<times> json) list \<Rightarrow> (string \<times> json) list \<Rightarrow> json" where
  "with_metadata kvs computed =
     JObj (assign (assign [] (Some (JObj kvs)))
            (Some (JObj [(''__metadata'',
               JObj (assign (assign [] (map_of kvs ''__metadata'')) (Some (JObj computed))))])))"

text \<open>
  The branches of \<open>mapObjectField\<close> up to its recursive call: raise, return the field
  value with the messages logged, annotate the value with a model, or map the items of
  an array.
\<close>

datatype dispatch =
    DThrow
  | DReturn "diag list"
  | DAnnotate "json option" ctx
  | DList "json list" json ctx

definition fieldDispatch :: "json \<Rightarrow> json \<Rightarrow> ctx \<Rightarrow> dispatch" where
  "fieldDispatch fieldValue fieldModel cx =
     (if fieldModel = JNull then DThrow
      else if jprop fieldModel ''type'' = Some (JStr ''object'') then
        DAnnotate (Some fieldModel) cx
      else if jprop fieldModel ''type'' = Some (JStr ''model'') then
        (case jprop fieldModel ''models'' of
           Some (JArr ms) \<Rightarrow>
             if length ms < 1 then
               DReturn [ModelsPropertyInvalid (location_of cx (cx_modelFieldPath cx))]
             else if length ms = 1 then
               (if \<not> has (cx_modelsByName cx) (Some (hd ms)) then
                  DReturn [ModelsNameUnknown (location_of cx (cx_modelFieldPath cx))]
                else DAnnotate (jprop (cx_modelsByName cx) (toStr (hd ms)))
                       (cx\<lparr>cx_modelFieldPath := []\<rparr>))
             else
               (if \<not> has fieldValue (Some (JStr ''type'')) then
                  DReturn [TypePropertyMissing (location_of cx (cx_modelFieldPath cx))]
                else if \<not> has (cx_modelsByName cx) (jprop fieldValue ''type'') then
                  DReturn [TypePropertyUnknown (location_of cx (cx_modelFieldPath cx))]
                else DAnnotate
                       (jprop (cx_modelsByName cx) (toKeyStr (jprop fieldValue ''type'')))
                       (cx\<lparr>cx_modelFieldPath := []\<rparr>))
         | _ \<Rightarrow> DReturn [ModelsPropertyInvalid (location_of cx (cx_modelFieldPath cx))])
      else if jprop fieldModel ''type'' = Some (JStr ''reference'') then
        (if has fieldValue (Some (JStr ''type'')) \<and>
            has (cx_modelsByName cx) (jprop fieldValue ''type'')
         then DAnnotate
                (jprop (cx_modelsByName cx) (toKeyStr (jprop fieldValue ''type'')))
                (cx\<lparr>cx_modelFieldPath := []\<rparr>)
         else DReturn [])
      else if jprop fieldModel ''type'' = Some (JStr ''list'') then
        (case fieldValue of
           JArr xs \<Rightarrow>
             DList xs
               (case jprop fieldModel ''items'' of
                  None \<Rightarrow> JObj [(''type'', JStr ''string'')] | Some i \<Rightarrow> i)
               (cx\<lparr>cx_modelFieldPath := cx_modelFieldPath cx @ [SKey ''items'']\<rparr>)
         | _ \<Rightarrow> DReturn [ListMustBeArray (location_of cx (cx_modelFieldPath cx))])
      else DReturn [])"

lemma fieldDispatch_DList:
  "fieldDispatch fieldValue fieldModel cx = DList xs itemModel cx' \<Longrightarrow> fieldValue = JArr xs"
  by (auto simp: fieldDispatch_def split: if_splits option.splits json.splits)

definition model_fields :: "json option \<Rightarrow> json" where
  "model_fields model =
     (case model of
        None \<Rightarrow> JObj []
      | Some m \<Rightarrow> (case jprop m ''fields'' of None \<Rightarrow> JObj [] | Some f \<Rightarrow> f))"

definition field_ctx :: "ctx \<Rightarrow> string \<Rightarrow> ctx" where
  "field_ctx cx fieldName =
     cx\<lparr>cx_dataFieldPath := cx_dataFieldPath cx @ [SKey fieldName],
        cx_modelFieldPath := cx_modelFieldPath cx @ [SKey ''fields'', SKey fieldName]\<rparr>"

definition item_ctx :: "ctx \<Rightarrow> nat \<Rightarrow> ctx" where
  "item_ctx cx idx = cx\<lparr>cx_dataFieldPath := cx_dataFieldPath cx @ [SIdx idx]\<rparr>"

definition start_path :: "json option \<Rightarrow> ctx \<Rightarrow> seg list" where
  "start_path model cx =
     (if cx_modelFieldPath cx = [] then [SVal (jprop (the model) ''name'')]
      else cx_modelFieldPath cx)"

function addMetadata :: "json \<Rightarrow> json option \<Rightarrow> ctx \<Rightarrow> json res"
  and mapObjectField :: "json \<Rightarrow> json \<Rightarrow> ctx \<Rightarrow> json res"
  and mapValues_fields :: "(string \<times> json) list \<Rightarrow> json \<Rightarrow> ctx \<Rightarrow> ((string \<times> json) list) res"
  and map_items :: "json list \<Rightarrow> nat \<Rightarrow> json \<Rightarrow> ctx \<Rightarrow> (json list) res"
where
  "addMetadata data model cx =
     (if cx_modelFieldPath cx = [] \<and> isNil model then Inl TypeError
      else
        (case data of
           JObj kvs \<Rightarrow>
             (case mapValues_fields kvs (model_fields model)
                     (cx\<lparr>cx_modelFieldPath := start_path model cx\<rparr>) of
                Inl e \<Rightarrow> Inl e
              | Inr (kvs', ds) \<Rightarrow>
                  (case computed_metadata model (cx_filePath cx) of
                     Inl e \<Rightarrow> Inl e
                   | Inr computed \<Rightarrow> Inr (with_metadata kvs' computed, ds)))
         | _ \<Rightarrow> Inr (data, [ValueMustBeObject (location_of cx (start_path model cx))])))"
| "mapObjectField fieldValue fieldModel cx =
     (case fieldDispatch fieldValue fieldModel cx of
        DThrow \<Rightarrow> Inl TypeError
      | DReturn ds \<Rightarrow> Inr (fieldValue, ds)
      | DAnnotate model cx' \<Rightarrow> addMetadata fieldValue model cx'
      | DList xs itemModel cx' \<Rightarrow>
          (case map_items xs 0 itemModel cx' of
             Inl e \<Rightarrow> Inl e
           | Inr (ys, ds) \<Rightarrow> Inr (JArr ys, ds)))"
| "mapValues_fields [] flds cx = Inr ([], [])"
| "mapValues_fields ((fieldName, fieldValue) # kvs) flds cx =
     (case (case find_by_name flds fieldName of
              None \<Rightarrow> Inr (fieldValue, [])
            | Some fieldModel \<Rightarrow> mapObjectField fieldValue fieldModel (field_ctx cx fieldName)) of
        Inl e \<Rightarrow> Inl e
      | Inr (v, ds) \<Rightarrow>
          (case mapValues_fields kvs flds cx of
             Inl e \<Rightarrow> Inl e
           | Inr (kvs', ds') \<Rightarrow> Inr ((fieldName, v) # kvs', ds @ ds')))"
| "map_items [] idx itemModel cx = Inr ([], [])"
| "map_items (item # xs) idx itemModel cx =
     (case mapObjectField item itemModel (item_ctx cx idx) of
        Inl e \<Rightarrow> Inl e
      | Inr (v, ds) \<Rightarrow>
          (case map_items xs (Suc idx) itemModel cx of
             Inl e \<Rightarrow> Inl e
           | Inr (vs, ds') \<Rightarrow> Inr (v # vs, ds @ ds')))"
  by pat_completeness auto
termination
  by (relation "measure (\<lambda>x. case x of
          Inl (Inl (data, model, cx)) \<Rightarrow> 2 * size data
        | Inl (Inr (fieldValue, fieldModel, cx)) \<Rightarrow> 2 * size fieldValue + 1
        | Inr (Inl (kvs, flds, cx)) \<Rightarrow> 2 * size_list (size_prod (\<lambda>k. 0) size) kvs + 1
        | Inr (Inr (xs, idx, itemModel, cx)) \<Rightarrow> 2 * size_list size xs + 1)")
     (auto dest: fieldDispatch_DList)

subsection \<open>mergeDataObjects\<close>

text \<open>
  \<open>_.set\<close> builds values that parsed data cannot hold: the array it makes for a numeric
  key has holes, and it may carry named properties. The merged tree is therefore a value
  of its own type: an array \<open>TArr n kvs\<close> has the length \<open>n\<close> and the own properties
  \<open>kvs\<close> other than \<open>length\<close>, the elements among them under their indices. \<open>of_json\<close>
  embeds parsed data.
\<close>

datatype tree =
    TNull
  | TBool bool
  | TNum int
  | TStr string
  | TObj "(string \<times> tree) list"
  | TArr nat "(string \<times> tree) list"

fun of_json :: "json \<Rightarrow> tree" where
  "of_json JNull = TNull"
| "of_json (JBool b) = TBool b"
| "of_json (JNum i) = TNum i"
| "of_json (JStr s) = TStr s"
| "of_json (JArr xs) = TArr (length xs) (zip (map show_nat [0 ..< length xs]) (map of_json xs))"
| "of_json (JObj kvs) = TObj (map (\<lambda>(k, v). (k, of_json v)) kvs)"

text \<open>
  A key is an array index when it is the canonical decimal form of a number below
  \<open>2\<^sup>3\<^sup>2 - 1 = 4294967295\<close>. lodash's \<open>isIndex\<close>, which decides whether \<open>_.set\<close> makes an
  array or an object for a missing value, accepts the canonical decimal forms
  (\<open>reIsUint\<close>) of the numbers below \<open>2\<^sup>5\<^sup>3 - 1 = 9007199254740991\<close>. Canonical forms of
  the same length compare as their numbers do.
\<close>

definition reIsUint :: "string \<Rightarrow> bool" where
  "reIsUint k = (k \<noteq> [] \<and> (\<forall>c \<in> set k. is_digit c) \<and> (k = ''0'' \<or> hd k \<noteq> CHR ''0''))"

definition is_array_index :: "string \<Rightarrow> bool" where
  "is_array_index k =
     (reIsUint k \<and> (length k < 10 \<or> (length k = 10 \<and> k < ''4294967295'')))"

definition isIndex :: "string \<Rightarrow> bool" where
  "isIndex k =
     (reIsUint k \<and> (length k < 16 \<or> (length k = 16 \<and> k < ''9007199254740991'')))"

definition uint_value :: "string \<Rightarrow> nat" where
  "uint_value k = fold (\<lambda>c a. 10 * a + the (digit_val c)) k 0"

text \<open>
  The own properties of an object are kept in the order in which JavaScript enumerates
  them: the array indices in ascending order, then the other keys in the order of their
  creation. \<open>put_prop\<close> is the assignment \<open>object[k] = v\<close> on the properties.
\<close>

definition comes_before :: "string \<Rightarrow> string \<Rightarrow> bool" where
  "comes_before k k' =
     (is_array_index k \<and>
      (\<not> is_array_index k' \<or> length k < length k' \<or> (length k = length k' \<and> k < k')))"

fun insert_prop :: "string \<Rightarrow> 'a \<Rightarrow> (string \<times> 'a) list \<Rightarrow> (string \<times> 'a) list" where
  "insert_prop k v [] = [(k, v)]"
| "insert_prop k v ((k', v') # kvs) =
     (if comes_before k k' then (k, v) # (k', v') # kvs
      else (k', v') # insert_prop k v kvs)"

definition put_prop :: "string \<Rightarrow> 'a \<Rightarrow> (string \<times> 'a) list \<Rightarrow> (string \<times> 'a) list" where
  "put_prop k v kvs =
     (if map_of kvs k = None then insert_prop k v kvs else AList.update k v kvs)"

text \<open>
  The properties that plain objects and arrays inherit from \<open>Object.prototype\<close> and
  \<open>Array.prototype\<close>; \<open>length\<close> stands with the latter. When \<open>_.set\<close> walks through one
  of them that the object does not have as its own, it writes into a built-in function
  shared by all objects; writing the \<open>length\<close> of an array raises or truncates the
  array. The model does not follow these cases and gives \<open>OutsideModel\<close>.
\<close>

definition object_prototype_keys :: "string list" where
  "object_prototype_keys =
     [''constructor'', ''__defineGetter__'', ''__defineSetter__'', ''hasOwnProperty'',
      ''__lookupGetter__'', ''__lookupSetter__'', ''isPrototypeOf'', ''propertyIsEnumerable'',
      ''toString'', ''valueOf'', ''__proto__'', ''toLocaleString'']"

definition array_prototype_keys :: "string list" where
  "array_prototype_keys =
     [''length'', ''at'', ''concat'', ''copyWithin'', ''fill'', ''find'', ''findIndex'',
      ''findLast'', ''findLastIndex'', ''lastIndexOf'', ''pop'', ''push'', ''reverse'',
      ''shift'', ''unshift'', ''slice'', ''sort'', ''splice'', ''includes'', ''indexOf'',
      ''join'', ''keys'', ''entries'', ''values'', ''forEach'', ''filter'', ''flat'',
      ''flatMap'', ''map'', ''every'', ''some'', ''reduce'', ''reduceRight'', ''toReversed'',
      ''toSorted'', ''toSpliced'', ''with'']"

datatype failure = Raised exn | OutsideModel

datatype slot = Own tree | Builtin | Absent

definition read_prop :: "tree \<Rightarrow> string \<Rightarrow> slot" where
  "read_prop nested k =
     (case nested of
        TObj kvs \<Rightarrow>
          (case map_of kvs k of
             Some w \<Rightarrow> Own w
           | None \<Rightarrow> if k \<in> set object_prototype_keys then Builtin else Absent)
      | TArr n kvs \<Rightarrow>
          (case map_of kvs k of
             Some w \<Rightarrow> Own w
           | None \<Rightarrow>
               if k \<in> set array_prototype_keys \<or> k \<in> set object_prototype_keys then Builtin
               else Absent)
      | _ \<Rightarrow> Absent)"

definition isObject :: "tree \<Rightarrow> bool" where
  "isObject v = (case v of TObj kvs \<Rightarrow> True | TArr n kvs \<Rightarrow> True | _ \<Rightarrow> False)"

definition unsafe_key :: "string \<Rightarrow> bool" where
  "unsafe_key k = (k = ''__proto__'' \<or> k = ''constructor'' \<or> k = ''prototype'')"

definition assignValue :: "tree \<Rightarrow> string \<Rightarrow> tree \<Rightarrow> failure + tree" where
  "assignValue nested k v =
     (case nested of
        TObj kvs \<Rightarrow> Inr (TObj (put_prop k v kvs))
      | TArr n kvs \<Rightarrow>
          if k = ''length'' then Inl OutsideModel
          else Inr (TArr (if is_array_index k then max n (Suc (uint_value k)) else n)
                      (put_prop k v kvs))
      | _ \<Rightarrow> Inr nested)"

text \<open>
  \<open>baseSet(object, path, value)\<close> with an array path, on an object or array. The keys
  \<open>__proto__\<close>, \<open>constructor\<close> and \<open>prototype\<close> end the walk, whatever has been created on
  the way. On the way to the last key, a value that is an object or array is entered; a
  missing or primitive value is replaced by a new array when the next key is an index
  and by a new object otherwise.
\<close>

definition new_container :: "string \<Rightarrow> tree" where
  "new_container k' = (if isIndex k' then TArr 0 [] else TObj [])"

definition newValue_for :: "tree \<Rightarrow> string \<Rightarrow> string \<Rightarrow> tree option" where
  "newValue_for nested k k' =
     (case read_prop nested k of
        Builtin \<Rightarrow> None
      | Absent \<Rightarrow> Some (new_container k')
      | Own objValue \<Rightarrow> Some (if isObject objValue then objValue else new_container k'))"

fun baseSet :: "tree \<Rightarrow> string list \<Rightarrow> tree \<Rightarrow> failure + tree" where
  "baseSet nested [] v = Inr nested"
| "baseSet nested [k] v = (if unsafe_key k then Inr nested else assignValue nested k v)"
| "baseSet nested (k # k' # ks) v =
     (if unsafe_key k then Inr nested
      else
        (case newValue_for nested k k' of
           None \<Rightarrow> Inl OutsideModel
         | Some newValue \<Rightarrow>
             (case baseSet newValue (k' # ks) v of
                Inl e \<Rightarrow> Inl e
              | Inr sub \<Rightarrow> assignValue nested k sub)))"

definition file_key :: "json option \<Rightarrow> string" where
  "file_key v = (case v of Some (JStr s) \<Rightarrow> s | _ \<Rightarrow> [])"

text \<open>
  \<open>_.sortBy(objects, objectFileKeyPath)\<close> with a string: the objects are sorted by the value
  at that path, with a stable sort; strings compare by character code. (An array would
  be read by \<open>_.sortBy\<close> as a list of sort keys, not as a path; \<open>index.js\<close> passes the
  string \<open>__metadata.relSourcePath\<close>, and \<open>mergeDataObjects\<close> is modelled for a string.)
  The fold below raises as soon as it meets a file path that is not a string, whatever
  its place in the sorted list, so the order that \<open>_.sortBy\<close> gives to such keys does not
  show in the result and \<open>file_key\<close> maps them to the empty string.
\<close>

definition sortBy_path :: "json list \<Rightarrow> string \<Rightarrow> json list" where
  "sortBy_path objects objectFileKeyPath =
     sort_key (\<lambda>object. file_key (get object (PStr objectFileKeyPath))) objects"

definition propPath_of :: "string \<Rightarrow> string list" where
  "propPath_of filePath =
     (let pathObject = path_parse filePath
      in compact (split_on CHR ''/'' (pp_dir pathObject) @ [pp_name pathObject]))"

definition merge_step :: "string \<Rightarrow> json \<Rightarrow> failure + tree \<Rightarrow> failure + tree" where
  "merge_step objectFileKeyPath object acc =
     (case acc of
        Inl e \<Rightarrow> Inl e
      | Inr accum \<Rightarrow>
          (case get object (PStr objectFileKeyPath) of
             Some (JStr filePath) \<Rightarrow> baseSet accum (propPath_of filePath) (of_json object)
           | _ \<Rightarrow> Inl (Raised TypeError)))"

definition merge_seed :: "string \<Rightarrow> tree" where
  "merge_seed src =
     TObj [(''__metadata'', TObj [(''id'', TStr (src @ '':data'')), (''source'', TStr src)])]"

definition mergeDataObjects :: "json list \<Rightarrow> string \<Rightarrow> string \<Rightarrow> failure + tree" where
  "mergeDataObjects objects objectFileKeyPath src =
     fold (merge_step objectFileKeyPath) (sortBy_path objects objectFileKeyPath)
       (Inr (merge_seed src))"

text \<open>
  The value that a tree holds at a key path: the own properties, key by key.
\<close>

definition entry :: "tree \<Rightarrow> string \<Rightarrow> tree option" where
  "entry t k = (case t of TObj kvs \<Rightarrow> map_of kvs k | TArr n kvs \<Rightarrow> map_of kvs k | _ \<Rightarrow> None)"

fun at_path :: "tree \<Rightarrow> string list \<Rightarrow> tree option" where
  "at_path t [] = Some t"
| "at_path t (k # ks) = (case entry t k of None \<Rightarrow> None | Some w \<Rightarrow> at_path w ks)"

definition builtin_keys :: "string list" where
  "builtin_keys = object_prototype_keys @ array_prototype_keys"

text \<open>
  A placement at the key path \<open>p\<close> leaves the key path \<open>q\<close> alone when \<open>p\<close> is empty, so
  that nothing is placed, or when neither path begins with the other.
\<close>

definition apart :: "string list \<Rightarrow> string list \<Rightarrow> bool" where
  "apart p q = (p = [] \<or> (\<not> prefix p q \<and> \<not> prefix q p))"

subsection \<open>matchObjectsToModels\<close>

text \<open>
  \<open>getModelByQuery\<close> belongs to the Stackbit SDK; it is a parameter of the model. It
  receives the query and the candidate models and answers with a model or an error.
\<close>

record query =
  q_filePath :: "json option"
  q_type :: "json option"
  q_modelTypeKeyPath :: string

datatype query_result = QError string | QModel json

record config =
  cfg_pageObjectsPredicate :: "json \<Rightarrow> bool"
  cfg_dataObjectsPredicate :: "json \<Rightarrow> bool"
  cfg_pageLayoutKey :: keypath
  cfg_dataTypeKey :: keypath
  cfg_objectIdKeyPath :: keypath
  cfg_objectFileKeyPath :: keypath
  cfg_source :: string
  cfg_mergeDataModels :: bool
  cfg_logMatchedModels :: bool

definition keyBy_name :: "json list \<Rightarrow> json" where
  "keyBy_name models =
     JObj (fold (\<lambda>m acc. obj_update (toKeyStr (jprop m ''name'')) m acc) models [])"

definition models_of_type :: "string \<Rightarrow> json list \<Rightarrow> json list" where
  "models_of_type t models = filter (\<lambda>m. jprop m ''type'' = Some (JStr t)) models"

definition match_step ::
  "(query \<Rightarrow> json list \<Rightarrow> query_result) \<Rightarrow> config \<Rightarrow> json list \<Rightarrow> json list \<Rightarrow> json \<Rightarrow>
   (string \<times> json) list \<times> diag list \<Rightarrow> (string \<times> json) list \<times> diag list" where
  "match_step getModelByQuery cfg pageModels dataModels object acc =
     (case acc of (accum, ds) \<Rightarrow>
        if cfg_pageObjectsPredicate cfg object then
          (case getModelByQuery
                  \<lparr>q_filePath = get object (cfg_objectFileKeyPath cfg),
                   q_type = get object (cfg_pageLayoutKey cfg),
                   q_modelTypeKeyPath = ''layout''\<rparr> pageModels of
             QError msg \<Rightarrow> (accum, ds @ [MatchError msg])
           | QModel model \<Rightarrow>
               (obj_update (toKeyStr (get object (cfg_objectIdKeyPath cfg))) model accum, ds))
        else if cfg_dataObjectsPredicate cfg object then
          (case getModelByQuery
                  \<lparr>q_filePath = get object (cfg_objectFileKeyPath cfg),
                   q_type = get object (cfg_dataTypeKey cfg),
                   q_modelTypeKeyPath = ''name''\<rparr> dataModels of
             QError msg \<Rightarrow> (accum, ds @ [MatchError msg])
           | QModel model \<Rightarrow>
               (obj_update (toKeyStr (get object (cfg_objectIdKeyPath cfg))) model accum, ds))
        else (accum, ds))"

definition size_of :: "json option \<Rightarrow> nat" where
  "size_of v =
     (case v of
        Some (JStr s) \<Rightarrow> length s
      | Some (JArr xs) \<Rightarrow> length xs
      | Some (JObj kvs) \<Rightarrow> length kvs
      | _ \<Rightarrow> 0)"

definition uniq :: "'a list \<Rightarrow> 'a list" where
  "uniq xs = rev (remdups (rev xs))"

fun maxBy_size :: "json option list \<Rightarrow> json option option" where
  "maxBy_size [] = None"
| "maxBy_size (x # xs) =
     Some (fold (\<lambda>y best. if size_of y > size_of best then y else best) xs x)"

text \<open>
  The block guarded by \<open>logMatchedModels\<close>: one line per matched object. It reads
  \<open>model.name\<close> of every matched model and \<open>longestModelName.length\<close>.
\<close>

definition matched_models_log :: "(string \<times> json) list \<Rightarrow> exn + diag" where
  "matched_models_log accum =
     (let modelNames = uniq (map (\<lambda>(objectId, model). jprop model ''name'') accum);
          longestModelName = maxBy_size modelNames
      in if accum = [] then Inr (Info_MatchedModels [])
         else if (\<exists>(objectId, model) \<in> set accum. model = JNull) \<or>
                 (case longestModelName of None \<Rightarrow> True | Some n \<Rightarrow> isNil n)
         then Inl TypeError
         else Inr (Info_MatchedModels
                    (map (\<lambda>(objectId, model). (jprop model ''name'', objectId)) accum)))"

definition annotate_object :: "config \<Rightarrow> json \<Rightarrow> json \<Rightarrow> json \<Rightarrow> json res" where
  "annotate_object cfg modelsByObjectIds modelsByName object =
     (let objectId = get object (cfg_objectIdKeyPath cfg);
          model = get_path modelsByObjectIds (castPath objectId modelsByObjectIds)
      in if \<not> truthy model then Inr (object, [])
         else addMetadata object model
                \<lparr>cx_filePath = get object (cfg_objectFileKeyPath cfg),
                 cx_modelsByName = modelsByName,
                 cx_dataFieldPath = [], cx_modelFieldPath = []\<rparr>)"

fun annotate_all :: "config \<Rightarrow> json \<Rightarrow> json \<Rightarrow> json list \<Rightarrow> (json list) res" where
  "annotate_all cfg ids byName [] = Inr ([], [])"
| "annotate_all cfg ids byName (object # objects) =
     (case annotate_object cfg ids byName object of
        Inl e \<Rightarrow> Inl e
      | Inr (object', ds) \<Rightarrow>
          (case annotate_all cfg ids byName objects of
             Inl e \<Rightarrow> Inl e
           | Inr (objects', ds') \<Rightarrow> Inr (object' # objects', ds @ ds')))"

definition matches_data :: "json \<Rightarrow> bool" where
  "matches_data object =
     (case jprop object ''__metadata'' of
        Some (JObj m) \<Rightarrow> map_of m ''modelType'' = Some (JStr ''data'')
      | _ \<Rightarrow> False)"

text \<open>
  The call of \<open>mergeDataObjects\<close> with the configured key path of the file path, which
  is followed for a string; for an array of keys the model gives \<open>OutsideModel\<close>.
\<close>

definition merge_data :: "json list \<Rightarrow> keypath \<Rightarrow> string \<Rightarrow> failure + tree" where
  "merge_data dataObjects objectFileKeyPath src =
     (case objectFileKeyPath of
        PStr path \<Rightarrow> mergeDataObjects dataObjects path src
      | PArr keys \<Rightarrow> Inl OutsideModel)"

text \<open>
  The result is the array of the objects, with the merged data object appended when
  \<open>mergeDataModels\<close> is set, and the messages logged. The merged data object is a tree,
  so the array is one of trees and the objects stand in it under \<open>of_json\<close>. They are
  given as the annotation phase returns them. In JavaScript an object that
  \<open>mergeDataObjects\<close> puts into the merged tree is shared between the tree and the
  array, and a later \<open>_.set\<close> whose path runs through that object adds to it in place;
  the merged tree of the model shows such additions, the array does not.
\<close>

definition matchObjectsToModels ::
  "(query \<Rightarrow> json list \<Rightarrow> query_result) \<Rightarrow> json list \<Rightarrow> json list \<Rightarrow> config \<Rightarrow>
   failure + (tree list \<times> diag list)" where
  "matchObjectsToModels getModelByQuery objects models cfg =
     (let modelsByName = keyBy_name models;
          pageModels = models_of_type ''page'' models;
          dataModels = models_of_type ''data'' models;
          (modelsByObjectIds, ds1) =
             fold (match_step getModelByQuery cfg pageModels dataModels) objects
               ([], [Info_Matching]);
          ds2 = ds1 @ [Info_Count (length modelsByObjectIds) (length objects)]
      in (case (if cfg_logMatchedModels cfg then
                  (case matched_models_log modelsByObjectIds of
                     Inl e \<Rightarrow> Inl e | Inr d \<Rightarrow> Inr (ds2 @ [d]))
                else Inr ds2) of
            Inl e \<Rightarrow> Inl (Raised e)
          | Inr ds3 \<Rightarrow>
              (case annotate_all cfg (JObj modelsByObjectIds) modelsByName objects of
                 Inl e \<Rightarrow> Inl (Raised e)
               | Inr (objects', ds4) \<Rightarrow>
                   if cfg_mergeDataModels cfg then
                     (case merge_data (filter matches_data objects')
                             (cfg_objectFileKeyPath cfg) (cfg_source cfg) of
                        Inl e \<Rightarrow> Inl e
                      | Inr mergedDataObject \<Rightarrow>
                          Inr (map of_json objects' @ [mergedDataObject], ds3 @ ds4))
                   else Inr (map of_json objects', ds3 @ ds4))))"

declare addMetadata.simps [simp del] mapObjectField.simps [simp del]

section \<open>Example schema and content\<close>

definition ex_hero :: json where
  "ex_hero = JObj [(''name'', JStr ''hero''), (''type'', JStr ''object''),
     (''fields'', JArr [JObj [(''name'', JStr ''title''), (''type'', JStr ''string'')]])]"

definition ex_cta :: json where
  "ex_cta = JObj [(''name'', JStr ''cta''), (''type'', JStr ''object''),
     (''fields'', JArr [JObj [(''name'', JStr ''text''), (''type'', JStr ''string'')]])]"

definition ex_footer :: json where
  "ex_footer = JObj [(''name'', JStr ''footer''), (''type'', JStr ''object'')]"

definition ex_section_field :: json where
  "ex_section_field = JObj [(''name'', JStr ''section''), (''type'', JStr ''model''),
     (''models'', JArr [JStr ''hero'', JStr ''cta''])]"

definition ex_ctx :: ctx where
  "ex_ctx = \<lparr>cx_filePath = Some (JStr ''blog/index.md''),
     cx_modelsByName = keyBy_name [ex_hero, ex_cta, ex_footer],
     cx_dataFieldPath = [SKey ''section''],
     cx_modelFieldPath = [SVal (Some (JStr ''page'')), SKey ''fields'', SKey ''section'']\<rparr>"

definition ex_list_field :: json where
  "ex_list_field = JObj [(''name'', JStr ''items''), (''type'', JStr ''list''),
     (''items'', JObj [(''type'', JStr ''object''),
        (''fields'', JArr [JObj [(''name'', JStr ''title''), (''type'', JStr ''string'')]])])]"

definition field_result :: "json \<Rightarrow> ctx \<Rightarrow> string \<Rightarrow> json \<Rightarrow> json res" where
  "field_result flds cx fieldName fieldValue =
     (case find_by_name flds fieldName of
        None \<Rightarrow> Inr (fieldValue, [])
      | Some fieldModel \<Rightarrow> mapObjectField fieldValue fieldModel (field_ctx cx fieldName))"

definition ex_post :: json where
  "ex_post = JObj [(''name'', JStr ''post''), (''type'', JStr ''data''),
     (''fields'', JArr [JObj [(''name'', JStr ''title''), (''type'', JStr ''string'')]])]"

definition ex_top_ctx :: ctx where
  "ex_top_ctx = \<lparr>cx_filePath = Some (JStr ''posts/first.md''),
     cx_modelsByName = keyBy_name [ex_hero, ex_cta, ex_footer, ex_post],
     cx_dataFieldPath = [], cx_modelFieldPath = []\<rparr>"

definition ex_annotated :: json where
  "ex_annotated = JObj [(''title'', JStr ''First''),
     (''__metadata'', JObj [(''id'', JStr ''posts/first.md''), (''modelName'', JStr ''draft'')])]"

text \<open>
  Modelled from the spec: \<open>getModelByQuery\<close> of the Stackbit SDK, which is not part of
  this repository, following the resolution policy of the Model Selector: the one
  candidate whose key attribute equals the declared type, or the only candidate when no
  type is declared; an error otherwise. It stands for the SDK function where an example
  needs a concrete one.
\<close>

definition getModelByQuery_spec :: "query \<Rightarrow> json list \<Rightarrow> query_result" where
  "getModelByQuery_spec q candidates =
     (case q_type q of
        None \<Rightarrow>
          (case candidates of
             [m] \<Rightarrow> QModel m
           | _ \<Rightarrow> QError ''no model, or more than one, for the file'')
      | Some t \<Rightarrow>
          (case filter (\<lambda>m. jprop m (q_modelTypeKeyPath q) = Some t) candidates of
             [m] \<Rightarrow> QModel m
           | _ \<Rightarrow> QError ''no model, or more than one, for the type''))"

text \<open>
  The configuration that \<open>transform\<close> of \<open>index.js\<close> passes, with the defaults of
  \<open>pageLayoutKey\<close> and \<open>objectTypeKey\<close>; \<open>_.matches({__metadata: {sourceName: n}})\<close>.
\<close>

definition matches_sourceName :: "string \<Rightarrow> json \<Rightarrow> bool" where
  "matches_sourceName n object =
     (case jprop object ''__metadata'' of
        Some (JObj m) \<Rightarrow> map_of m ''sourceName'' = Some (JStr n)
      | _ \<Rightarrow> False)"

definition transform_config :: "bool \<Rightarrow> bool \<Rightarrow> config" where
  "transform_config mergeDataModels logMatchedModels =
     \<lparr>cfg_pageObjectsPredicate = matches_sourceName ''pages'',
      cfg_dataObjectsPredicate = matches_sourceName ''data'',
      cfg_pageLayoutKey = PArr [''frontmatter'', ''layout''],
      cfg_dataTypeKey = PStr ''type'',
      cfg_objectIdKeyPath = PStr ''__metadata.id'',
      cfg_objectFileKeyPath = PStr ''__metadata.relSourcePath'',
      cfg_source = ''sourcebit-source-filesystem'',
      cfg_mergeDataModels = mergeDataModels,
      cfg_logMatchedModels = logMatchedModels\<rparr>"

definition ex_person :: json where
  "ex_person = JObj [(''name'', JStr ''person''), (''type'', JStr ''data'')]"

definition ex_page :: json where
  "ex_page = JObj [(''name'', JStr ''page''), (''type'', JStr ''page''),
     (''fields'', JArr [JObj [(''name'', JStr ''author''), (''type'', JStr ''reference'')]])]"

definition ex_about :: json where
  "ex_about = JObj [
     (''__metadata'', JObj [(''id'', JStr ''content/about.md''), (''source'', JStr ''sourcebit-source-filesystem''),
        (''sourceName'', JStr ''pages''), (''sourcePath'', JStr ''content''),
        (''relSourcePath'', JStr ''about.md''), (''relProjectPath'', JStr ''content/about.md'')]),
     (''frontmatter'', JObj [(''title'', JStr ''About'')]),
     (''author'', JObj [(''type'', JStr ''person.name'')])]"

text \<open>
  What the match phase does with one object: the answer of \<open>getModelByQuery\<close> for a
  page or data object, the entry it stores in \<open>modelsByObjectIds\<close>, and the message it
  logs.
\<close>

definition resolve_model ::
  "(query \<Rightarrow> json list \<Rightarrow> query_result) \<Rightarrow> config \<Rightarrow> json list \<Rightarrow> json list \<Rightarrow> json \<Rightarrow>
   query_result option" where
  "resolve_model getModelByQuery cfg pageModels dataModels object =
     (if cfg_pageObjectsPredicate cfg object then
        Some (getModelByQuery
                \<lparr>q_filePath = get object (cfg_objectFileKeyPath cfg),
                 q_type = get object (cfg_pageLayoutKey cfg),
                 q_modelTypeKeyPath = ''layout''\<rparr> pageModels)
      else if cfg_dataObjectsPredicate cfg object then
        Some (getModelByQuery
                \<lparr>q_filePath = get object (cfg_objectFileKeyPath cfg),
                 q_type = get object (cfg_dataTypeKey cfg),
                 q_modelTypeKeyPath = ''name''\<rparr> dataModels)
      else None)"

definition matched_entry ::
  "(query \<Rightarrow> json list \<Rightarrow> query_result) \<Rightarrow> config \<Rightarrow> json list \<Rightarrow> json list \<Rightarrow> json \<Rightarrow>
   (string \<times> json) option" where
  "matched_entry getModelByQuery cfg pageModels dataModels object =
     (case resolve_model getModelByQuery cfg pageModels dataModels object of
        Some (QModel model) \<Rightarrow> Some (toKeyStr (get object (cfg_objectIdKeyPath cfg)), model)
      | _ \<Rightarrow> None)"

definition match_errors ::
  "(query \<Rightarrow> json list \<Rightarrow> query_result) \<Rightarrow> config \<Rightarrow> json list \<Rightarrow> json list \<Rightarrow> json \<Rightarrow>
   diag list" where
  "match_errors getModelByQuery cfg pageModels dataModels object =
     (case resolve_model getModelByQuery cfg pageModels dataModels object of
        Some (QError msg) \<Rightarrow> [MatchError msg]
      | _ \<Rightarrow> [])"

definition ex_dup_page :: json where
  "ex_dup_page = JObj [
     (''__metadata'', JObj [(''id'', JStr ''content/a.md''), (''sourceName'', JStr ''pages''),
        (''relSourcePath'', JStr ''a.md'')]),
     (''title'', JStr ''A'')]"

definition ex_dup_data :: json where
  "ex_dup_data = JObj [
     (''__metadata'', JObj [(''id'', JStr ''content/a.md''), (''sourceName'', JStr ''data''),
        (''relSourcePath'', JStr ''a.md'')]),
     (''type'', JStr ''unknown'')]"


definition ex_lonely :: json where
  "ex_lonely = JObj [
     (''__metadata'', JObj [(''id'', JStr ''data/x.yaml''), (''sourceName'', JStr ''data''),
        (''relSourcePath'', JStr ''x.yaml'')]),
     (''type'', JStr ''unknown'')]"

definition ex_alice_md :: json where
  "ex_alice_md = JObj [
     (''__metadata'', JObj [(''id'', JStr ''data/team/alice.md''),
        (''relSourcePath'', JStr ''team/alice.md''), (''modelType'', JStr ''data'')]),
     (''role'', JStr ''from markdown'')]"

definition ex_alice_yaml :: json where
  "ex_alice_yaml = JObj [
     (''__metadata'', JObj [(''id'', JStr ''data/team/alice.yaml''),
        (''relSourcePath'', JStr ''team/alice.yaml''), (''modelType'', JStr ''data'')]),
     (''role'', JStr ''from yaml'')]"

definition ex_alice_other :: json where
  "ex_alice_other = JObj [
     (''__metadata'', JObj [(''id'', JStr ''more/team/alice.yaml''),
        (''relSourcePath'', JStr ''team/alice.yaml''), (''modelType'', JStr ''data'')]),
     (''role'', JStr ''from the second source'')]"

definition ex_reserved :: json where
  "ex_reserved = JObj [
     (''__metadata'', JObj [(''id'', JStr ''data/__metadata.yaml''),
        (''relSourcePath'', JStr ''__metadata.yaml''), (''modelType'', JStr ''data'')]),
     (''title'', JStr ''About this site'')]"

definition ex_year_post :: json where
  "ex_year_post = JObj [
     (''__metadata'', JObj [(''id'', JStr ''data/blog/2021/post.yaml''),
        (''relSourcePath'', JStr ''blog/2021/post.yaml''), (''modelType'', JStr ''data'')]),
     (''title'', JStr ''Post'')]"

definition ex_post_1 :: json where
  "ex_post_1 = JObj [
     (''__metadata'', JObj [(''id'', JStr ''data/posts/1.md''),
        (''relSourcePath'', JStr ''posts/1.md''), (''modelType'', JStr ''data'')]),
     (''title'', JStr ''One, markdown'')]"

definition ex_post_1_yaml :: json where
  "ex_post_1_yaml = JObj [
     (''__metadata'', JObj [(''id'', JStr ''data/posts/1.yaml''),
        (''relSourcePath'', JStr ''posts/1.yaml''), (''modelType'', JStr ''data'')]),
     (''title'', JStr ''One, yaml'')]"

text \<open>
  Notions for the idempotence of \<open>addMetadata\<close>: a schema value that declares something
  named \<open>__metadata\<close>; content whose objects have distinct keys, as every JavaScript
  object has; and the part of a value that annotation leaves alone (everything but the
  \<open>__metadata\<close> entries).
\<close>

fun names_metadata :: "json \<Rightarrow> bool" where
  "names_metadata (JObj kvs) =
     (map_of kvs ''name'' = Some (JStr ''__metadata'') \<or>
      list_ex (\<lambda>(k, v). names_metadata v) kvs)"
| "names_metadata (JArr xs) = list_ex names_metadata xs"
| "names_metadata v = False"

fun wf_json :: "json \<Rightarrow> bool" where
  "wf_json (JObj kvs) = (distinct (map fst kvs) \<and> list_all (\<lambda>(k, v). wf_json v) kvs)"
| "wf_json (JArr xs) = list_all wf_json xs"
| "wf_json v = True"

fun skel :: "json \<Rightarrow> json" where
  "skel (JObj kvs) =
     JObj (filter (\<lambda>(k, v). k \<noteq> ''__metadata'') (map (\<lambda>(k, v). (k, skel v)) kvs))"
| "skel (JArr xs) = JArr (map skel xs)"
| "skel v = v"

definition meta_of :: "(string \<times> json) list \<Rightarrow> (string \<times> json) list \<Rightarrow> (string \<times> json) list" where
  "meta_of kvs computed = assign (assign [] (map_of kvs ''__metadata'')) (Some (JObj computed))"

text \<open>
  The four statements of the induction over \<open>addMetadata\<close>, \<open>mapObjectField\<close> and their
  two loops: a second run on the result of a first run returns that result.
\<close>

definition idem_add :: "json \<Rightarrow> json option \<Rightarrow> ctx \<Rightarrow> bool" where
  "idem_add data model cx \<longleftrightarrow>
     (wf_json data \<and> (\<forall>m. model = Some m \<longrightarrow> \<not> names_metadata m) \<and>
      \<not> names_metadata (cx_modelsByName cx) \<longrightarrow>
      (\<forall>out ds. addMetadata data model cx = Inr (out, ds) \<longrightarrow>
         skel out = skel data \<and> (\<exists>ds'. addMetadata out model cx = Inr (out, ds'))))"

definition idem_field :: "json \<Rightarrow> json \<Rightarrow> ctx \<Rightarrow> bool" where
  "idem_field v fm cx \<longleftrightarrow>
     (wf_json v \<and> \<not> names_metadata fm \<and> \<not> names_metadata (cx_modelsByName cx) \<longrightarrow>
      (\<forall>v' ds. mapObjectField v fm cx = Inr (v', ds) \<longrightarrow>
         skel v' = skel v \<and> (\<exists>ds'. mapObjectField v' fm cx = Inr (v', ds'))))"

definition idem_values :: "(string \<times> json) list \<Rightarrow> json \<Rightarrow> ctx \<Rightarrow> bool" where
  "idem_values kvs flds cx \<longleftrightarrow>
     (list_all (\<lambda>(k, v). wf_json v) kvs \<and> \<not> names_metadata flds \<and>
      \<not> names_metadata (cx_modelsByName cx) \<longrightarrow>
      (\<forall>kvs' ds. mapValues_fields kvs flds cx = Inr (kvs', ds) \<longrightarrow>
         map (\<lambda>(k, v). (k, skel v)) kvs' = map (\<lambda>(k, v). (k, skel v)) kvs \<and>
         (\<forall>(k, v)\<in>set kvs'. \<exists>d. field_result flds cx k v = Inr (v, d))))"

definition idem_items :: "json list \<Rightarrow> nat \<Rightarrow> json \<Rightarrow> ctx \<Rightarrow> bool" where
  "idem_items xs idx im cx \<longleftrightarrow>
     (list_all wf_json xs \<and> \<not> names_metadata im \<and> \<not> names_metadata (cx_modelsByName cx) \<longrightarrow>
      (\<forall>ys ds. map_items xs idx im cx = Inr (ys, ds) \<longrightarrow>
         map skel ys = map skel xs \<and> (\<exists>ds'. map_items ys idx im cx = Inr (ys, ds'))))"

definition ex_meta_model :: json where
  "ex_meta_model = JObj [(''name'', JStr ''note''), (''type'', JStr ''data''),
     (''fields'', JArr [JObj [(''name'', JStr ''__metadata''), (''type'', JStr ''object'')]])]"

definition ex_first :: json where
  "ex_first = JObj [(''title'', JStr ''First''), (''tags'', JArr [JStr ''a''])]"

section \<open>Properties of the URL path derivation\<close>

lemma join_with_snoc:
  "ds \<noteq> [] \<Longrightarrow> join_with sep (ds @ [b]) = join_with sep ds @ sep @ b"
  by (induction sep ds rule: join_with.induct) auto

lemma split_on_no_sep: "c \<notin> set s \<Longrightarrow> split_on c s = [s]"
  by (induction s) auto

lemma split_on_append:
  "c \<notin> set s \<Longrightarrow> split_on c (s @ c # r) = s # split_on c r"
  by (induction s) auto

lemma split_on_join:
  "ds \<noteq> [] \<Longrightarrow> \<forall>d\<in>set ds. c \<notin> set d \<Longrightarrow> split_on c (join_with [c] ds) = ds"
proof (induction "[c]" ds rule: join_with.induct)
  case 1 then show ?case by simp
next
  case (2 x) then show ?case by (simp add: split_on_no_sep)
next
  case (3 x y ys)
  then show ?case using split_on_append[of c x] by simp
qed

lemma join_with_empty_iff:
  "join_with ''/'' ds = [] \<longleftrightarrow> ds = [] \<or> ds = [[]]"
  by (induction "''/''" ds rule: join_with.induct) auto

lemma takeWhile_rev_last_segment:
  "c \<notin> set b \<Longrightarrow> takeWhile (\<lambda>x. x \<noteq> c) (rev b @ c # r) = rev b"
  by (simp add: takeWhile_append)

lemma dropWhile_rev_no_trailing:
  "s \<noteq> [] \<Longrightarrow> last s \<noteq> c \<Longrightarrow> rev (dropWhile (\<lambda>x. x = c) (rev s)) = s"
  by (cases s rule: rev_cases) auto

text \<open>
  \<open>path.parse\<close> of a path \<open>pre @ b\<close> whose last segment \<open>b\<close> is not empty, \<open>pre\<close> being
  empty or ending with the separator in front of \<open>b\<close>.
\<close>

lemma path_parse_pre:
  assumes "b \<noteq> []" and "CHR ''/'' \<notin> set b" and "pre = [] \<or> last pre = CHR ''/''"
  shows "pp_base (path_parse (pre @ b)) = b"
    and "pp_dir (path_parse (pre @ b)) =
           (if pre = [] then [] else if pre = ''/'' then ''/'' else butlast pre)"
    and "pp_name (path_parse (pre @ b)) =
           (if CHR ''.'' \<notin> set b \<or>
               take (length b - length (takeWhile (\<lambda>c. c \<noteq> CHR ''.'') (rev b)) - 1) b = [] \<or>
               (b = ''..'' \<and> pre \<noteq> ''/'')
            then b
            else take (length b - length (takeWhile (\<lambda>c. c \<noteq> CHR ''.'') (rev b)) - 1) b)"
proof -
  have pne: "pre @ b \<noteq> []" using assms(1) by simp
  have "last b \<in> set b" using assms(1) by (rule last_in_set)
  then have "last b \<noteq> CHR ''/''" using assms(2) by metis
  then have lastb: "last (pre @ b) \<noteq> CHR ''/''" using assms(1) by simp
  have t: "rev (dropWhile (\<lambda>c. c = CHR ''/'') (rev (pre @ b))) = pre @ b"
    using dropWhile_rev_no_trailing[OF pne lastb] .
  have tw: "takeWhile (\<lambda>c. c \<noteq> CHR ''/'') (rev (pre @ b)) = rev b"
  proof (cases "pre = []")
    case True
    then show ?thesis using assms(2) by auto
  next
    case False
    then obtain q where "pre = q @ ''/''" using assms(3) by (metis append_butlast_last_id)
    then show ?thesis using takeWhile_rev_last_segment[OF assms(2), of "rev q"] by simp
  qed
  have rest: "take (length (pre @ b) - length b) (pre @ b) = pre" by simp
  have unf: "path_parse (pre @ b) =
     (let root = (if hd (pre @ b) = CHR ''/'' then ''/'' else []);
          dir = (if pre = [] then [] else if pre = ''/'' then ''/'' else butlast pre);
          e = rev (takeWhile (\<lambda>c. c \<noteq> CHR ''.'') (rev b));
          n = take (length b - length e - 1) b
      in if CHR ''.'' \<notin> set b \<or> n = [] \<or> (b = ''..'' \<and> pre \<noteq> ''/'')
         then \<lparr>pp_root = root, pp_dir = dir, pp_base = b, pp_ext = [], pp_name = b\<rparr>
         else \<lparr>pp_root = root, pp_dir = dir, pp_base = b,
               pp_ext = CHR ''.'' # e, pp_name = n\<rparr>)"
    unfolding path_parse_def[of "pre @ b"] Let_def t tw rev_rev_ident rest
    using assms(1) by simp
  show "pp_base (path_parse (pre @ b)) = b" unfolding unf Let_def by simp
  show "pp_dir (path_parse (pre @ b)) =
           (if pre = [] then [] else if pre = ''/'' then ''/'' else butlast pre)"
    unfolding unf Let_def by simp
  show "pp_name (path_parse (pre @ b)) =
           (if CHR ''.'' \<notin> set b \<or>
               take (length b - length (takeWhile (\<lambda>c. c \<noteq> CHR ''.'') (rev b)) - 1) b = [] \<or>
               (b = ''..'' \<and> pre \<noteq> ''/'')
            then b
            else take (length b - length (takeWhile (\<lambda>c. c \<noteq> CHR ''.'') (rev b)) - 1) b)"
    unfolding unf Let_def by simp
qed

text \<open>
  The path \<open>segs/b\<close>, written with one separator between its segments, \<open>b\<close> being the
  last one and not empty: what \<open>path.parse\<close> gives as \<open>base\<close>, as the segments of \<open>dir\<close>
  and as \<open>name\<close>.
\<close>

lemma path_parse_join:
  assumes "\<forall>s\<in>set segs. CHR ''/'' \<notin> set s" and "b \<noteq> []" and "CHR ''/'' \<notin> set b"
  shows "pp_base (path_parse (join_with ''/'' (segs @ [b]))) = b"
    and "compact (split_on CHR ''/'' (pp_dir (path_parse (join_with ''/'' (segs @ [b]))))) =
           filter (\<lambda>s. s \<noteq> []) segs"
    and "pp_name (path_parse (join_with ''/'' (segs @ [b]))) =
           (if CHR ''.'' \<notin> set b \<or>
               take (length b - length (takeWhile (\<lambda>c. c \<noteq> CHR ''.'') (rev b)) - 1) b = [] \<or>
               (b = ''..'' \<and> segs \<noteq> [[]])
            then b
            else take (length b - length (takeWhile (\<lambda>c. c \<noteq> CHR ''.'') (rev b)) - 1) b)"
proof -
  let ?j = "join_with ''/'' segs"
  let ?pre = "if segs = [] then [] else ?j @ ''/''"
  let ?p = "join_with ''/'' (segs @ [b])"
  have p: "?p = ?pre @ b" by (simp add: join_with_snoc)
  have ok: "?pre = [] \<or> last ?pre = CHR ''/''" by simp
  have pre1: "?pre = ''/'' \<longleftrightarrow> segs = [[]]"
    using join_with_empty_iff[of segs] by auto
  note pp = path_parse_pre[OF assms(2,3) ok]
  show "pp_base (path_parse ?p) = b" unfolding p by (rule pp(1))
  show "pp_name (path_parse ?p) =
           (if CHR ''.'' \<notin> set b \<or>
               take (length b - length (takeWhile (\<lambda>c. c \<noteq> CHR ''.'') (rev b)) - 1) b = [] \<or>
               (b = ''..'' \<and> segs \<noteq> [[]])
            then b
            else take (length b - length (takeWhile (\<lambda>c. c \<noteq> CHR ''.'') (rev b)) - 1) b)"
    unfolding p pp(3) pre1 ..
  have dir: "pp_dir (path_parse ?p) =
               (if segs = [] then [] else if segs = [[]] then ''/'' else ?j)"
    unfolding p pp(2) pre1 by simp
  show "compact (split_on CHR ''/'' (pp_dir (path_parse ?p))) = filter (\<lambda>s. s \<noteq> []) segs"
  proof (cases "segs = [] \<or> segs = [[]]")
    case True
    then show ?thesis unfolding dir by (auto simp: compact_def)
  next
    case False
    then have "split_on CHR ''/'' ?j = segs"
      using split_on_join[of segs "CHR ''/''"] assms(1) by simp
    then show ?thesis unfolding dir using False by (simp add: compact_def)
  qed
qed

lemma pp_name_ext:
  assumes "\<forall>s\<in>set segs. CHR ''/'' \<notin> set s" and "n \<noteq> []" and "CHR ''/'' \<notin> set n"
    and "CHR ''/'' \<notin> set e" and "CHR ''.'' \<notin> set e" and "n = ''.'' \<and> e = [] \<longrightarrow> segs = [[]]"
  shows "pp_name (path_parse (join_with ''/'' (segs @ [n @ CHR ''.'' # e]))) = n"
proof -
  let ?b = "n @ CHR ''.'' # e"
  have b: "?b \<noteq> []" "CHR ''/'' \<notin> set ?b" using assms by auto
  have tw: "takeWhile (\<lambda>c. c \<noteq> CHR ''.'') (rev ?b) = rev e"
    using assms(5) by (simp add: takeWhile_append)
  have dd: "?b = ''..'' \<longleftrightarrow> n = ''.'' \<and> e = []"
    using assms(2,5) by (auto simp: append_eq_Cons_conv Cons_eq_append_conv)
  show ?thesis
    unfolding path_parse_join(3)[OF assms(1) b] tw dd using assms(2,6) by auto
qed

lemma pp_name_plain:
  assumes "\<forall>s\<in>set segs. CHR ''/'' \<notin> set s" and "b \<noteq> []" and "CHR ''/'' \<notin> set b"
    and "CHR ''.'' \<notin> set (tl b) \<or> (b = ''..'' \<and> segs \<noteq> [[]])"
  shows "pp_name (path_parse (join_with ''/'' (segs @ [b]))) = b"
proof -
  have "CHR ''.'' \<notin> set b \<or>
        take (length b - length (takeWhile (\<lambda>c. c \<noteq> CHR ''.'') (rev b)) - 1) b = [] \<or>
        (b = ''..'' \<and> segs \<noteq> [[]])"
  proof (cases "CHR ''.'' \<notin> set (tl b)")
    case False
    then show ?thesis using assms(4) by simp
  next
    case True
    obtain c r where cr: "b = c # r" using assms(2) by (cases b) auto
    show ?thesis
    proof (cases "c = CHR ''.''")
      case False
      then show ?thesis using True cr by simp
    next
      case dot: True
      have "takeWhile (\<lambda>c. c \<noteq> CHR ''.'') (rev r @ [c]) = rev r"
        using True cr dot by (simp add: takeWhile_append)
      then show ?thesis using cr by simp
    qed
  qed
  then show ?thesis unfolding path_parse_join(3)[OF assms(1,2,3)] by presburger
qed

lemma path_parse_trailing:
  assumes "p \<noteq> []"
  shows "path_parse (p @ replicate k CHR ''/'') = path_parse p"
proof -
  have "dropWhile (\<lambda>c. c = CHR ''/'') (replicate k CHR ''/'' @ rev p) =
        dropWhile (\<lambda>c. c = CHR ''/'') (rev p)"
    by (rule dropWhile_append2) simp
  then have t: "dropWhile (\<lambda>c. c = CHR ''/'') (rev (p @ replicate k CHR ''/'')) =
        dropWhile (\<lambda>c. c = CHR ''/'') (rev p)"
    by simp
  have h: "hd (p @ replicate k CHR ''/'') = hd p" using assms by simp
  show ?thesis unfolding path_parse_def Let_def t h using assms by simp
qed

lemma urlPathFromFilePath_separators:
  "urlPathFromFilePath (replicate k CHR ''/'') = ''/''"
proof (cases k)
  case 0
  then show ?thesis by (simp add: urlPathFromFilePath_def path_parse_def compact_def toLowerCase_def)
next
  case (Suc j)
  have "dropWhile (\<lambda>c. c = CHR ''/'') (replicate (Suc j) CHR ''/'' @ []) =
        dropWhile (\<lambda>c. c = CHR ''/'') []"
    by (rule dropWhile_append2) auto
  then have t: "dropWhile (\<lambda>c. c = CHR ''/'') (rev (replicate (Suc j) CHR ''/'')) = []"
    by simp
  show ?thesis
    unfolding Suc urlPathFromFilePath_def path_parse_def Let_def t
    by (simp add: compact_def toLowerCase_def)
qed

text \<open>
  Claim C5. \<open>urlPathFromFilePath\<close> is a function of the file path alone and returns for
  every string. Separators at the end of the path are ignored, and a path without any
  segment gives \<open>/\<close>. Otherwise let the path be \<open>segs/b\<close> with \<open>b\<close> its last segment. The
  directory segments are the segments of \<open>segs\<close> that are not empty. The name is \<open>b\<close>
  without its extension, which begins at the last dot of \<open>b\<close>; \<open>b\<close> has no extension when
  it has no dot after its first character, or is \<open>..\<close> (directly under the root \<open>/\<close> Node
  reads \<open>..\<close> as the name \<open>.\<close> with the extension \<open>.\<close>). The result is \<open>/\<close> followed by the
  lower-cased join of the directory segments and the name, the name being left out when
  it is the literal \<open>index\<close>. In particular \<open>blog/post-1/index.md\<close> gives \<open>/blog/post-1\<close>,
  \<open>about.md\<close> gives \<open>/about\<close> and \<open>index.md\<close> gives \<open>/\<close>.
\<close>

theorem urlPathFromFilePath_spec:
  "urlPathFromFilePath (replicate k CHR ''/'') = ''/''
   \<and> urlPathFromFilePath (p @ replicate k CHR ''/'') = urlPathFromFilePath p
   \<and> ((\<forall>s\<in>set segs. CHR ''/'' \<notin> set s) \<and> n \<noteq> [] \<and> CHR ''/'' \<notin> set n \<and>
       CHR ''/'' \<notin> set e \<and> CHR ''.'' \<notin> set e \<and> (n = ''.'' \<and> e = [] \<longrightarrow> segs = [[]]) \<longrightarrow>
       urlPathFromFilePath (join_with ''/'' (segs @ [n @ CHR ''.'' # e])) =
         CHR ''/'' # toLowerCase (join_with ''/''
           (filter (\<lambda>s. s \<noteq> []) segs @ (if n = ''index'' then [] else [n]))))
   \<and> ((\<forall>s\<in>set segs. CHR ''/'' \<notin> set s) \<and> b \<noteq> [] \<and> CHR ''/'' \<notin> set b \<and>
       (CHR ''.'' \<notin> set (tl b) \<or> (b = ''..'' \<and> segs \<noteq> [[]])) \<longrightarrow>
       urlPathFromFilePath (join_with ''/'' (segs @ [b])) =
         CHR ''/'' # toLowerCase (join_with ''/''
           (filter (\<lambda>s. s \<noteq> []) segs @ (if b = ''index'' then [] else [b]))))
   \<and> urlPathFromFilePath ''blog/post-1/index.md'' = ''/blog/post-1''
   \<and> urlPathFromFilePath ''about.md'' = ''/about''
   \<and> urlPathFromFilePath ''index.md'' = ''/''
   \<and> urlPathFromFilePath ''Blog//My.First.Post.MD'' = ''/blog/my.first.post''
   \<and> urlPathFromFilePath ''/ABCDEFGHIJKLM/NOPQRSTUVWXYZ/@[`{.yaml'' =
       ''/abcdefghijklm/nopqrstuvwxyz/@[`{''
   \<and> urlPathFromFilePath [CHR 0xC0, CHR 0xD6, CHR 0xD7, CHR 0xD8, CHR 0xDE, CHR 0xDF, CHR 0xFF] =
       [CHR ''/'', CHR 0xE0, CHR 0xF6, CHR 0xD7, CHR 0xF8, CHR 0xFE, CHR 0xDF, CHR 0xFF]
   \<and> urlPathFromFilePath ''Index.md'' = ''/index''
   \<and> urlPathFromFilePath ''docs/.config'' = ''/docs/.config''
   \<and> urlPathFromFilePath ''/..'' = ''/.''"
proof (intro conjI impI)
  show "urlPathFromFilePath (replicate k CHR ''/'') = ''/''"
    by (rule urlPathFromFilePath_separators)
next
  show "urlPathFromFilePath (p @ replicate k CHR ''/'') = urlPathFromFilePath p"
  proof (cases "p = []")
    case True
    then show ?thesis
      using urlPathFromFilePath_separators[of k] urlPathFromFilePath_separators[of 0] by simp
  next
    case False
    then show ?thesis by (simp add: urlPathFromFilePath_def path_parse_trailing)
  qed
next
  assume h: "(\<forall>s\<in>set segs. CHR ''/'' \<notin> set s) \<and> n \<noteq> [] \<and> CHR ''/'' \<notin> set n \<and>
       CHR ''/'' \<notin> set e \<and> CHR ''.'' \<notin> set e \<and> (n = ''.'' \<and> e = [] \<longrightarrow> segs = [[]])"
  let ?b = "n @ CHR ''.'' # e"
  have b: "?b \<noteq> []" "CHR ''/'' \<notin> set ?b" using h by auto
  have s: "\<forall>s\<in>set segs. CHR ''/'' \<notin> set s" using h by simp
  have name: "pp_name (path_parse (join_with ''/'' (segs @ [?b]))) = n"
    by (rule pp_name_ext) (use h in blast)+
  show "urlPathFromFilePath (join_with ''/'' (segs @ [?b])) =
         CHR ''/'' # toLowerCase (join_with ''/''
           (filter (\<lambda>s. s \<noteq> []) segs @ (if n = ''index'' then [] else [n])))"
    unfolding urlPathFromFilePath_def Let_def name path_parse_join(2)[OF s b] by simp
next
  assume h: "(\<forall>s\<in>set segs. CHR ''/'' \<notin> set s) \<and> b \<noteq> [] \<and> CHR ''/'' \<notin> set b \<and>
       (CHR ''.'' \<notin> set (tl b) \<or> (b = ''..'' \<and> segs \<noteq> [[]]))"
  have b: "b \<noteq> []" "CHR ''/'' \<notin> set b" using h by auto
  have s: "\<forall>s\<in>set segs. CHR ''/'' \<notin> set s" using h by simp
  have name: "pp_name (path_parse (join_with ''/'' (segs @ [b]))) = b"
    by (rule pp_name_plain) (use h in blast)+
  show "urlPathFromFilePath (join_with ''/'' (segs @ [b])) =
         CHR ''/'' # toLowerCase (join_with ''/''
           (filter (\<lambda>s. s \<noteq> []) segs @ (if b = ''index'' then [] else [b])))"
    unfolding urlPathFromFilePath_def Let_def name path_parse_join(2)[OF s b] by simp
next
  show "urlPathFromFilePath ''blog/post-1/index.md'' = ''/blog/post-1''" by code_simp
next
  show "urlPathFromFilePath ''about.md'' = ''/about''" by code_simp
next
  show "urlPathFromFilePath ''index.md'' = ''/''" by code_simp
next
  show "urlPathFromFilePath ''Blog//My.First.Post.MD'' = ''/blog/my.first.post''" by code_simp
next
  show "urlPathFromFilePath ''/ABCDEFGHIJKLM/NOPQRSTUVWXYZ/@[`{.yaml'' =
       ''/abcdefghijklm/nopqrstuvwxyz/@[`{''" by code_simp
next
  show "urlPathFromFilePath [CHR 0xC0, CHR 0xD6, CHR 0xD7, CHR 0xD8, CHR 0xDE, CHR 0xDF, CHR 0xFF] =
       [CHR ''/'', CHR 0xE0, CHR 0xF6, CHR 0xD7, CHR 0xF8, CHR 0xFE, CHR 0xDF, CHR 0xFF]"
    by code_simp
next
  show "urlPathFromFilePath ''Index.md'' = ''/index''" by code_simp
next
  show "urlPathFromFilePath ''docs/.config'' = ''/docs/.config''" by code_simp
next
  show "urlPathFromFilePath ''/..'' = ''/.''" by code_simp
qed

theorem urlPathFromFilePath_spec_witness:
  "urlPathFromFilePath ''Docs//Guide/My.Intro.md'' = ''/docs/guide/my.intro''
   \<and> urlPathFromFilePath ''/Docs/README'' = ''/docs/readme''"
proof -
  note T = urlPathFromFilePath_spec[of 0 "[]" "[''Docs'', [], ''Guide'']" "''My.Intro''" "''md''" "''README''"]
  have h: "(\<forall>s\<in>set [''Docs'', [], ''Guide'']. CHR ''/'' \<notin> set s) \<and> ''My.Intro'' \<noteq> [] \<and>
       CHR ''/'' \<notin> set ''My.Intro'' \<and> CHR ''/'' \<notin> set ''md'' \<and> CHR ''.'' \<notin> set ''md'' \<and>
       (''My.Intro'' = ''.'' \<and> ''md'' = [] \<longrightarrow> [''Docs'', [], ''Guide''] = [[]])"
    by simp
  have 1: "urlPathFromFilePath (join_with ''/'' ([''Docs'', [], ''Guide''] @ [''My.Intro'' @ CHR ''.'' # ''md''])) =
         CHR ''/'' # toLowerCase (join_with ''/''
           (filter (\<lambda>s. s \<noteq> []) [''Docs'', [], ''Guide''] @ (if ''My.Intro'' = ''index'' then [] else [''My.Intro''])))"
    using T[THEN conjunct2, THEN conjunct2, THEN conjunct1] h by blast
  note U = urlPathFromFilePath_spec[of 0 "[]" "[[], ''Docs'']" "''x''" "[]" "''README''"]
  have g: "(\<forall>s\<in>set [[], ''Docs'']. CHR ''/'' \<notin> set s) \<and> ''README'' \<noteq> [] \<and>
       CHR ''/'' \<notin> set ''README'' \<and>
       (CHR ''.'' \<notin> set (tl ''README'') \<or> (''README'' = ''..'' \<and> [[], ''Docs''] \<noteq> [[]]))"
    by simp
  have 2: "urlPathFromFilePath (join_with ''/'' ([[], ''Docs''] @ [''README''])) =
         CHR ''/'' # toLowerCase (join_with ''/''
           (filter (\<lambda>s. s \<noteq> []) [[], ''Docs''] @ (if ''README'' = ''index'' then [] else [''README''])))"
    using U[THEN conjunct2, THEN conjunct2, THEN conjunct2, THEN conjunct1] g by blast
  have l1: "toLowerCase ''Docs/Guide/My.Intro'' = ''docs/guide/my.intro''" by code_simp
  have l2: "toLowerCase ''Docs/README'' = ''docs/readme''" by code_simp
  from 1 2 show ?thesis by (simp add: l1 l2)
qed

section \<open>Polymorphic model fields\<close>

lemma has_plain: "reIsPlainProp t \<Longrightarrow> has obj (Some (JStr t)) = (jprop obj t \<noteq> None)"
  by (simp add: has_def castPath_def isKey_def has_path_def)

lemma plain_type: "reIsPlainProp ''type''"
  by (simp add: reIsPlainProp_def word_chars_def)

lemma has_type: "has v (Some (JStr ''type'')) = (jprop v ''type'' \<noteq> None)"
  by (simp add: has_plain plain_type)

lemma jprop_not_null: "jprop v k = Some w \<Longrightarrow> v \<noteq> JNull"
  by (auto simp: jprop_def)

text \<open>
  Claim C1, as the code has it. For a field of type \<open>model\<close> whose \<open>models\<close> array lists
  more than one name: a field value without a \<open>type\<close> property is returned unchanged
  with a schema error; so is a value whose \<open>type\<close> is a plain name (word characters)
  that is not the name of a model of the schema; and a value whose \<open>type\<close> is the plain
  name of a model of the schema is annotated with that model, whether or not the
  \<open>models\<close> array lists the name.
\<close>

theorem model_field_discriminator:
  assumes "jprop fieldModel ''type'' = Some (JStr ''model'')"
    and "jprop fieldModel ''models'' = Some (JArr ms)"
    and "1 < length ms"
  shows "(jprop fieldValue ''type'' = None \<longrightarrow>
           isSchemaError (TypePropertyMissing (location_of cx (cx_modelFieldPath cx))) \<and>
           mapObjectField fieldValue fieldModel cx =
             Inr (fieldValue, [TypePropertyMissing (location_of cx (cx_modelFieldPath cx))]))
       \<and> (\<forall>t. jprop fieldValue ''type'' = Some (JStr t) \<and> reIsPlainProp t \<and>
              jprop (cx_modelsByName cx) t = None \<longrightarrow>
           isSchemaError (TypePropertyUnknown (location_of cx (cx_modelFieldPath cx))) \<and>
           mapObjectField fieldValue fieldModel cx =
             Inr (fieldValue, [TypePropertyUnknown (location_of cx (cx_modelFieldPath cx))]))
       \<and> (\<forall>t m. jprop fieldValue ''type'' = Some (JStr t) \<and> reIsPlainProp t \<and>
              jprop (cx_modelsByName cx) t = Some m \<longrightarrow>
           mapObjectField fieldValue fieldModel cx =
             addMetadata fieldValue (Some m) (cx\<lparr>cx_modelFieldPath := []\<rparr>))"
proof -
  have nn: "fieldModel \<noteq> JNull" using assms(1) by (rule jprop_not_null)
  show ?thesis
    using assms nn
    by (auto simp: mapObjectField.simps fieldDispatch_def has_type has_plain toKeyStr_def)
qed

theorem model_field_discriminator_witness:
  "mapObjectField (JObj [(''text'', JStr ''Go'')]) ex_section_field ex_ctx =
     Inr (JObj [(''text'', JStr ''Go'')],
          [TypePropertyMissing (location_of ex_ctx (cx_modelFieldPath ex_ctx))])
   \<and> mapObjectField (JObj [(''type'', JStr ''cta''), (''text'', JStr ''Go'')]) ex_section_field ex_ctx =
     Inr (JObj [(''type'', JStr ''cta''), (''text'', JStr ''Go''),
                (''__metadata'', JObj [(''modelType'', JStr ''object''),
                                       (''modelName'', JStr ''cta'')])], [])"
proof -
  have h1: "jprop ex_section_field ''type'' = Some (JStr ''model'')"
    by (simp add: ex_section_field_def jprop_def)
  have h2: "jprop ex_section_field ''models'' = Some (JArr [JStr ''hero'', JStr ''cta''])"
    by (simp add: ex_section_field_def jprop_def)
  have h3: "1 < length [JStr ''hero'', JStr ''cta'']" by simp
  have a: "jprop (JObj [(''text'', JStr ''Go'')]) ''type'' = None"
    by (simp add: jprop_def)
  have b: "jprop (JObj [(''type'', JStr ''cta''), (''text'', JStr ''Go'')]) ''type'' = Some (JStr ''cta'')"
    by (simp add: jprop_def)
  have c: "reIsPlainProp ''cta''" by (simp add: reIsPlainProp_def word_chars_def)
  have d: "jprop (cx_modelsByName ex_ctx) ''cta'' = Some ex_cta"
    by code_simp
  have e: "addMetadata (JObj [(''type'', JStr ''cta''), (''text'', JStr ''Go'')]) (Some ex_cta)
             (ex_ctx\<lparr>cx_modelFieldPath := []\<rparr>) =
           Inr (JObj [(''type'', JStr ''cta''), (''text'', JStr ''Go''),
                (''__metadata'', JObj [(''modelType'', JStr ''object''),
                                       (''modelName'', JStr ''cta'')])], [])"
    by code_simp
  from model_field_discriminator [OF h1 h2 h3, of "JObj [(''text'', JStr ''Go'')]" ex_ctx] a
  have first: "mapObjectField (JObj [(''text'', JStr ''Go'')]) ex_section_field ex_ctx =
     Inr (JObj [(''text'', JStr ''Go'')],
          [TypePropertyMissing (location_of ex_ctx (cx_modelFieldPath ex_ctx))])"
    by blast
  from model_field_discriminator [OF h1 h2 h3,
      of "JObj [(''type'', JStr ''cta''), (''text'', JStr ''Go'')]" ex_ctx] b c d
  have "mapObjectField (JObj [(''type'', JStr ''cta''), (''text'', JStr ''Go'')]) ex_section_field ex_ctx =
     addMetadata (JObj [(''type'', JStr ''cta''), (''text'', JStr ''Go'')]) (Some ex_cta)
       (ex_ctx\<lparr>cx_modelFieldPath := []\<rparr>)"
    by blast
  with e first show ?thesis by simp
qed

text \<open>
  The claim as stated asks for a \<open>type\<close> that names one of the models listed in the
  field's \<open>models\<close> array. The field below lists \<open>hero\<close> and \<open>cta\<close>; a value of type
  \<open>footer\<close>, a model of the schema that the array does not list, is annotated and no
  diagnostic is reported.
\<close>

theorem model_field_unlisted_counterexample:
  "jprop ex_section_field ''models'' = Some (JArr [JStr ''hero'', JStr ''cta''])
   \<and> JStr ''footer'' \<notin> set [JStr ''hero'', JStr ''cta'']
   \<and> mapObjectField (JObj [(''type'', JStr ''footer'')]) ex_section_field ex_ctx =
       Inr (JObj [(''type'', JStr ''footer''),
                  (''__metadata'', JObj [(''modelType'', JStr ''object''),
                                         (''modelName'', JStr ''footer'')])], [])
   \<and> mapObjectField (JObj [(''type'', JStr ''footer'')]) ex_section_field ex_ctx \<noteq>
       Inr (JObj [(''type'', JStr ''footer'')],
            [TypePropertyUnknown (location_of ex_ctx (cx_modelFieldPath ex_ctx))])"
proof -
  have "mapObjectField (JObj [(''type'', JStr ''footer'')]) ex_section_field ex_ctx =
       Inr (JObj [(''type'', JStr ''footer''),
                  (''__metadata'', JObj [(''modelType'', JStr ''object''),
                                         (''modelName'', JStr ''footer'')])], [])"
    by code_simp
  then show ?thesis by (simp add: ex_section_field_def jprop_def)
qed

section \<open>List fields\<close>

lemma map_items_Cons_Inr:
  "map_items (x # xs) idx im cx = Inr (ys, ds) \<longleftrightarrow>
     (\<exists>v d vs d'. mapObjectField x im (item_ctx cx idx) = Inr (v, d) \<and>
        map_items xs (Suc idx) im cx = Inr (vs, d') \<and> ys = v # vs \<and> ds = d @ d')"
proof (cases "mapObjectField x im (item_ctx cx idx)")
  case (Inl e)
  then show ?thesis by simp
next
  case (Inr p)
  obtain v d where p: "p = (v, d)" by (cases p)
  show ?thesis
  proof (cases "map_items xs (Suc idx) im cx")
    case (Inl e)
    then show ?thesis using Inr p by simp
  next
    case r: (Inr q)
    obtain vs d' where q: "q = (vs, d')" by (cases q)
    show ?thesis using Inr p r q by auto
  qed
qed


lemma map_items_Inr_iff:
  "map_items xs idx im cx = Inr (ys, ds) \<longleftrightarrow>
     (length ys = length xs \<and>
      (\<exists>dss. length dss = length xs \<and> ds = concat dss \<and>
         (\<forall>i<length xs. mapObjectField (xs ! i) im (item_ctx cx (idx + i)) = Inr (ys ! i, dss ! i))))"
proof (induction xs arbitrary: idx ys ds)
  case Nil
  then show ?case by auto
next
  case (Cons x xs)
  show ?case
  proof
    assume "map_items (x # xs) idx im cx = Inr (ys, ds)"
    then obtain v d vs d' where
      h: "mapObjectField x im (item_ctx cx idx) = Inr (v, d)"
      and t: "map_items xs (Suc idx) im cx = Inr (vs, d')"
      and ys: "ys = v # vs" and ds: "ds = d @ d'"
      unfolding map_items_Cons_Inr by blast
    from t obtain dss where
      l: "length vs = length xs" "length dss = length xs" "d' = concat dss"
      and e: "\<forall>i<length xs. mapObjectField (xs ! i) im (item_ctx cx (Suc idx + i)) = Inr (vs ! i, dss ! i)"
      unfolding Cons.IH[of "Suc idx" vs d'] by blast
    have "\<forall>i<length (x # xs). mapObjectField ((x # xs) ! i) im (item_ctx cx (idx + i)) =
            Inr (ys ! i, (d # dss) ! i)"
    proof (intro allI impI)
      fix i assume i: "i < length (x # xs)"
      show "mapObjectField ((x # xs) ! i) im (item_ctx cx (idx + i)) = Inr (ys ! i, (d # dss) ! i)"
      proof (cases i)
        case 0
        then show ?thesis using h ys by simp
      next
        case (Suc j)
        then have "j < length xs" using i by simp
        then show ?thesis using e ys Suc by simp
      qed
    qed
    moreover have "length (d # dss) = length (x # xs)" using l by simp
    moreover have "ds = concat (d # dss)" using l ds by simp
    moreover have "length ys = length (x # xs)" using l ys by simp
    ultimately show "length ys = length (x # xs) \<and>
      (\<exists>dss. length dss = length (x # xs) \<and> ds = concat dss \<and>
         (\<forall>i<length (x # xs). mapObjectField ((x # xs) ! i) im (item_ctx cx (idx + i)) = Inr (ys ! i, dss ! i)))"
      by blast
  next
    assume "length ys = length (x # xs) \<and>
      (\<exists>dss. length dss = length (x # xs) \<and> ds = concat dss \<and>
         (\<forall>i<length (x # xs). mapObjectField ((x # xs) ! i) im (item_ctx cx (idx + i)) = Inr (ys ! i, dss ! i)))"
    then obtain dss where l: "length ys = Suc (length xs)" "length dss = Suc (length xs)"
      and ds: "ds = concat dss"
      and e: "\<forall>i<Suc (length xs). mapObjectField ((x # xs) ! i) im (item_ctx cx (idx + i)) = Inr (ys ! i, dss ! i)"
      by auto
    from l obtain v vs d dss' where ys: "ys = v # vs" and dss: "dss = d # dss'"
      by (cases ys; cases dss) auto
    have "mapObjectField ((x # xs) ! 0) im (item_ctx cx (idx + 0)) = Inr (ys ! 0, dss ! 0)"
      using e by blast
    then have h: "mapObjectField x im (item_ctx cx idx) = Inr (v, d)"
      using ys dss by simp
    have "\<forall>i<length xs. mapObjectField (xs ! i) im (item_ctx cx (Suc idx + i)) = Inr (vs ! i, dss' ! i)"
    proof (intro allI impI)
      fix i assume "i < length xs"
      then have "mapObjectField ((x # xs) ! Suc i) im (item_ctx cx (idx + Suc i)) = Inr (ys ! Suc i, dss ! Suc i)"
        using e by blast
      then show "mapObjectField (xs ! i) im (item_ctx cx (Suc idx + i)) = Inr (vs ! i, dss' ! i)"
        using ys dss by simp
    qed
    moreover have "length vs = length xs" "length dss' = length xs" using l ys dss by auto
    ultimately have "map_items xs (Suc idx) im cx = Inr (vs, concat dss')"
      unfolding Cons.IH[of "Suc idx" vs "concat dss'"] by blast
    then show "map_items (x # xs) idx im cx = Inr (ys, ds)"
      unfolding map_items_Cons_Inr using h ys dss ds by simp
  qed
qed


lemma mapObjectField_list:
  assumes "jprop fieldModel ''type'' = Some (JStr ''list'')"
  shows "mapObjectField fieldValue fieldModel cx =
     (case fieldValue of
        JArr xs \<Rightarrow>
          (case map_items xs 0
                  (case jprop fieldModel ''items'' of
                     None \<Rightarrow> JObj [(''type'', JStr ''string'')] | Some i \<Rightarrow> i)
                  (cx\<lparr>cx_modelFieldPath := cx_modelFieldPath cx @ [SKey ''items'']\<rparr>) of
             Inl e \<Rightarrow> Inl e
           | Inr (ys, ds) \<Rightarrow> Inr (JArr ys, ds))
      | _ \<Rightarrow> Inr (fieldValue, [ListMustBeArray (location_of cx (cx_modelFieldPath cx))]))"
proof -
  have nn: "fieldModel \<noteq> JNull" using assms by (rule jprop_not_null)
  show ?thesis
    using assms nn by (cases fieldValue) (simp_all add: mapObjectField.simps fieldDispatch_def)
qed

lemma mapObjectField_scalar:
  "mapObjectField x (JObj [(''type'', JStr ''string'')]) cx = Inr (x, [])"
  by (simp add: mapObjectField.simps fieldDispatch_def jprop_def)

text \<open>
  Claim C7. For a field of type \<open>list\<close>: a value that is not an array is returned
  unchanged with a shape error. For an array, \<open>mapObjectField\<close> returns exactly when
  the dispatch of the item declaration returns on every element, and then the result is
  the array of the element results, in order, with the messages of the elements in
  order; the item declaration is \<open>{type: "string"}\<close> when the field has no \<open>items\<close>, and
  then the array is returned as it is. A list field with object-typed items and the
  value \<open>[{title: "a"}, {title: "b"}]\<close> gives two objects whose \<open>__metadata\<close> is
  \<open>{modelType: "object"}\<close>, without \<open>urlPath\<close>.
\<close>

theorem list_field_dispatch:
  assumes "jprop fieldModel ''type'' = Some (JStr ''list'')"
  shows "(\<not> isArray fieldValue \<longrightarrow>
            isShapeError (ListMustBeArray (location_of cx (cx_modelFieldPath cx))) \<and>
            mapObjectField fieldValue fieldModel cx =
              Inr (fieldValue, [ListMustBeArray (location_of cx (cx_modelFieldPath cx))]))
       \<and> (\<forall>xs r ds. fieldValue = JArr xs \<longrightarrow>
            (mapObjectField fieldValue fieldModel cx = Inr (r, ds) \<longleftrightarrow>
               (\<exists>ys dss. r = JArr ys \<and> length ys = length xs \<and> length dss = length xs \<and>
                  ds = concat dss \<and>
                  (\<forall>i<length xs.
                     mapObjectField (xs ! i)
                       (case jprop fieldModel ''items'' of
                          None \<Rightarrow> JObj [(''type'', JStr ''string'')] | Some i \<Rightarrow> i)
                       (item_ctx (cx\<lparr>cx_modelFieldPath := cx_modelFieldPath cx @ [SKey ''items'']\<rparr>) i) =
                     Inr (ys ! i, dss ! i)))))
       \<and> (\<forall>xs. fieldValue = JArr xs \<and> jprop fieldModel ''items'' = None \<longrightarrow>
            mapObjectField fieldValue fieldModel cx = Inr (fieldValue, []))
       \<and> mapObjectField (JArr [JObj [(''title'', JStr ''a'')], JObj [(''title'', JStr ''b'')]])
            ex_list_field ex_ctx =
          Inr (JArr [JObj [(''title'', JStr ''a''), (''__metadata'', JObj [(''modelType'', JStr ''object'')])],
                     JObj [(''title'', JStr ''b''), (''__metadata'', JObj [(''modelType'', JStr ''object'')])]],
               [])"
proof (intro conjI allI impI)
  assume "\<not> isArray fieldValue"
  then show "mapObjectField fieldValue fieldModel cx =
              Inr (fieldValue, [ListMustBeArray (location_of cx (cx_modelFieldPath cx))])"
    unfolding mapObjectField_list[OF assms] by (cases fieldValue) (simp_all add: isArray_def)
next
  show "isShapeError (ListMustBeArray (location_of cx (cx_modelFieldPath cx)))" by simp
next
  fix xs r ds
  assume fv: "fieldValue = JArr xs"
  let ?im = "case jprop fieldModel ''items'' of
               None \<Rightarrow> JObj [(''type'', JStr ''string'')] | Some i \<Rightarrow> i"
  let ?cx = "cx\<lparr>cx_modelFieldPath := cx_modelFieldPath cx @ [SKey ''items'']\<rparr>"
  have eq: "mapObjectField fieldValue fieldModel cx =
     (case map_items xs 0 ?im ?cx of Inl e \<Rightarrow> Inl e | Inr (ys, ds) \<Rightarrow> Inr (JArr ys, ds))"
    unfolding mapObjectField_list[OF assms] fv by simp
  have "mapObjectField fieldValue fieldModel cx = Inr (r, ds) \<longleftrightarrow>
        (\<exists>ys. r = JArr ys \<and> map_items xs 0 ?im ?cx = Inr (ys, ds))"
  proof (cases "map_items xs 0 ?im ?cx")
    case (Inl e)
    then show ?thesis unfolding eq by simp
  next
    case (Inr p)
    obtain ys0 ds0 where "p = (ys0, ds0)" by (cases p)
    then show ?thesis unfolding eq using Inr by auto
  qed
  then show "mapObjectField fieldValue fieldModel cx = Inr (r, ds) \<longleftrightarrow>
     (\<exists>ys dss. r = JArr ys \<and> length ys = length xs \<and> length dss = length xs \<and>
        ds = concat dss \<and>
        (\<forall>i<length xs. mapObjectField (xs ! i) ?im (item_ctx ?cx i) = Inr (ys ! i, dss ! i)))"
    unfolding map_items_Inr_iff by auto
next
  fix xs
  assume a: "fieldValue = JArr xs \<and> jprop fieldModel ''items'' = None"
  let ?cx = "cx\<lparr>cx_modelFieldPath := cx_modelFieldPath cx @ [SKey ''items'']\<rparr>"
  have "map_items xs 0 (JObj [(''type'', JStr ''string'')]) ?cx = Inr (xs, concat (replicate (length xs) []))"
    unfolding map_items_Inr_iff by (rule conjI, simp, rule exI[of _ "replicate (length xs) []"])
      (simp add: mapObjectField_scalar)
  then show "mapObjectField fieldValue fieldModel cx = Inr (fieldValue, [])"
    unfolding mapObjectField_list[OF assms] using a by simp
next
  show "mapObjectField (JArr [JObj [(''title'', JStr ''a'')], JObj [(''title'', JStr ''b'')]])
            ex_list_field ex_ctx =
          Inr (JArr [JObj [(''title'', JStr ''a''), (''__metadata'', JObj [(''modelType'', JStr ''object'')])],
                     JObj [(''title'', JStr ''b''), (''__metadata'', JObj [(''modelType'', JStr ''object'')])]],
               [])"
    by code_simp
qed

theorem list_field_dispatch_witness:
  "mapObjectField (JStr ''a, b'') ex_list_field ex_ctx =
     Inr (JStr ''a, b'', [ListMustBeArray (location_of ex_ctx (cx_modelFieldPath ex_ctx))])
   \<and> mapObjectField (JArr [JStr ''a'', JStr ''b''])
        (JObj [(''name'', JStr ''tags''), (''type'', JStr ''list'')]) ex_ctx =
     Inr (JArr [JStr ''a'', JStr ''b''], [])"
proof -
  have h: "jprop ex_list_field ''type'' = Some (JStr ''list'')"
    by (simp add: ex_list_field_def jprop_def)
  have h': "jprop (JObj [(''name'', JStr ''tags''), (''type'', JStr ''list'')]) ''type'' = Some (JStr ''list'')"
    by (simp add: jprop_def)
  have n: "jprop (JObj [(''name'', JStr ''tags''), (''type'', JStr ''list'')]) ''items'' = None"
    by (simp add: jprop_def)
  have a: "\<not> isArray (JStr ''a, b'')" by (simp add: isArray_def)
  from list_field_dispatch[OF h, of "JStr ''a, b''" ex_ctx] a
  have 1: "mapObjectField (JStr ''a, b'') ex_list_field ex_ctx =
     Inr (JStr ''a, b'', [ListMustBeArray (location_of ex_ctx (cx_modelFieldPath ex_ctx))])"
    by blast
  from list_field_dispatch[OF h', of "JArr [JStr ''a'', JStr ''b'']" ex_ctx] n
  have 2: "mapObjectField (JArr [JStr ''a'', JStr ''b''])
        (JObj [(''name'', JStr ''tags''), (''type'', JStr ''list'')]) ex_ctx =
     Inr (JArr [JStr ''a'', JStr ''b''], [])"
    by blast
  from 1 2 show ?thesis by simp
qed

section \<open>Merging the metadata\<close>

lemma map_of_fold_update:
  "map_of (fold (\<lambda>(k, v) t. obj_update k v t) es t) = map_of t ++ map_of (rev es)"
proof (induction es arbitrary: t)
  case Nil
  then show ?case by simp
next
  case (Cons e es)
  obtain a b where e: "e = (a, b)" by (cases e)
  have "map_of (fold (\<lambda>(k, v) t. obj_update k v t) (e # es) t) =
        map_of (obj_update a b t) ++ map_of (rev es)"
    using Cons.IH[of "obj_update a b t"] e by simp
  also have "\<dots> = map_of t ++ map_of (rev (e # es))"
    by (simp add: obj_update_def update_conv' e map_add_upd_left fun_eq_iff map_add_def split: option.splits)
  finally show ?case .
qed

lemma map_of_assign:
  "map_of (assign t src) = map_of t ++ map_of (rev (own_entries src))"
  by (simp add: assign_def map_of_fold_update)

lemma update_new_key:
  "k \<notin> fst ` set al \<Longrightarrow> AList.update k v al = al @ [(k, v)]"
  by (induction al) auto

lemma fold_update_append:
  "distinct (map fst (t @ es)) \<Longrightarrow> fold (\<lambda>(k, v) t. obj_update k v t) es t = t @ es"
proof (induction es arbitrary: t)
  case Nil
  then show ?case by simp
next
  case (Cons e es)
  obtain a b where e: "e = (a, b)" by (cases e)
  have "a \<notin> fst ` set t" using Cons.prems e by auto
  then have u: "obj_update a b t = t @ [(a, b)]" by (simp add: obj_update_def update_new_key)
  have "distinct (map fst ((t @ [(a, b)]) @ es))" using Cons.prems e by simp
  from Cons.IH[OF this] show ?case using u e by simp
qed

lemma assign_empty_distinct:
  "distinct (map fst kvs) \<Longrightarrow> assign [] (Some (JObj kvs)) = kvs"
  using fold_update_append[of "[]" kvs] by (simp add: assign_def own_entries_def)

lemma fold_update_noop:
  "\<forall>(k, v) \<in> set es. map_of t k = Some v \<Longrightarrow> fold (\<lambda>(k, v) t. obj_update k v t) es t = t"
proof (induction es)
  case Nil
  then show ?case by simp
next
  case (Cons e es)
  obtain a b where e: "e = (a, b)" by (cases e)
  have "obj_update a b t = t" using Cons.prems e by (simp add: obj_update_def update_triv)
  then show ?case using Cons e by simp
qed

lemma distinct_fold_update:
  "distinct (map fst t) \<Longrightarrow> distinct (map fst (fold (\<lambda>(k, v) t. obj_update k v t) es t))"
proof (induction es arbitrary: t)
  case Nil
  then show ?case by simp
next
  case (Cons e es)
  obtain a b where e: "e = (a, b)" by (cases e)
  have "distinct (map fst (obj_update a b t))"
    using Cons.prems by (simp add: obj_update_def distinct_update)
  from Cons.IH[OF this] show ?case using e by simp
qed

lemma distinct_assign: "distinct (map fst t) \<Longrightarrow> distinct (map fst (assign t src))"
  by (simp add: assign_def distinct_fold_update)

lemma map_of_rev_distinct: "distinct (map fst es) \<Longrightarrow> map_of (rev es) = map_of es"
proof (induction es)
  case Nil
  then show ?case by simp
next
  case (Cons e es)
  obtain a b where e: "e = (a, b)" by (cases e)
  have "a \<notin> dom (map_of es)" using Cons.prems e by (simp add: dom_map_of_conv_image_fst)
  then have "map_of es a = None" by blast
  then show ?case using Cons e
    by (auto simp: fun_eq_iff map_add_def split: option.splits)
qed

lemma mapValues_fields_Cons_Inr:
  "mapValues_fields ((k, v) # kvs) flds cx = Inr (r, ds) \<longleftrightarrow>
     (\<exists>v' d kvs' d'. field_result flds cx k v = Inr (v', d) \<and>
        mapValues_fields kvs flds cx = Inr (kvs', d') \<and> r = (k, v') # kvs' \<and> ds = d @ d')"
proof (cases "field_result flds cx k v")
  case (Inl e)
  then show ?thesis by (simp add: field_result_def)
next
  case (Inr p)
  obtain v' d where p: "p = (v', d)" by (cases p)
  show ?thesis
  proof (cases "mapValues_fields kvs flds cx")
    case (Inl e)
    then show ?thesis using Inr p by (simp add: field_result_def)
  next
    case r: (Inr q)
    obtain kvs' d' where q: "q = (kvs', d')" by (cases q)
    show ?thesis using Inr p r q by (auto simp: field_result_def)
  qed
qed

lemma addMetadata_JObj_Inr:
  "addMetadata (JObj kvs) model cx = Inr (out, ds) \<longleftrightarrow>
     (\<not> (cx_modelFieldPath cx = [] \<and> isNil model) \<and>
      (\<exists>kvs' computed.
         mapValues_fields kvs (model_fields model) (cx\<lparr>cx_modelFieldPath := start_path model cx\<rparr>) =
           Inr (kvs', ds) \<and>
         computed_metadata model (cx_filePath cx) = Inr computed \<and>
         out = with_metadata kvs' computed))"
proof (cases "cx_modelFieldPath cx = [] \<and> isNil model")
  case True
  then show ?thesis by (simp add: addMetadata.simps)
next
  case False
  show ?thesis
  proof (cases "mapValues_fields kvs (model_fields model) (cx\<lparr>cx_modelFieldPath := start_path model cx\<rparr>)")
    case (Inl e)
    then show ?thesis using False by (simp add: addMetadata.simps)
  next
    case (Inr p)
    obtain kvs' ds' where p: "p = (kvs', ds')" by (cases p)
    show ?thesis
    proof (cases "computed_metadata model (cx_filePath cx)")
      case (Inl e)
      then show ?thesis using False Inr p by (simp add: addMetadata.simps)
    next
      case c: (Inr computed)
      then show ?thesis using False Inr p by (auto simp: addMetadata.simps)
    qed
  qed
qed

lemma mapValues_fields_undeclared:
  "mapValues_fields kvs flds cx = Inr (kvs', ds) \<Longrightarrow> find_by_name flds k = None \<Longrightarrow>
   map_of kvs' k = map_of kvs k"
proof (induction kvs arbitrary: kvs' ds)
  case Nil
  then show ?case by simp
next
  case (Cons e kvs)
  obtain a b where e: "e = (a, b)" by (cases e)
  from Cons.prems(1) obtain v' d r d' where
    h: "field_result flds cx a b = Inr (v', d)"
    and t: "mapValues_fields kvs flds cx = Inr (r, d')"
    and k: "kvs' = (a, v') # r"
    unfolding e mapValues_fields_Cons_Inr by blast
  have "a = k \<Longrightarrow> v' = b" using h Cons.prems(2) by (simp add: field_result_def)
  then show ?case using Cons.IH[OF t Cons.prems(2)] k e by auto
qed

lemma computed_metadata_Inr:
  assumes "computed_metadata model fp = Inr computed"
  shows "\<exists>m. model = Some m \<and> m \<noteq> JNull
       \<and> distinct (map fst computed)
       \<and> (\<forall>k v. map_of computed k = Some v \<longrightarrow> v \<noteq> JNull)
       \<and> map_of computed ''modelType'' = (if isNil (jprop m ''type'') then None else jprop m ''type'')
       \<and> map_of computed ''modelName'' = (if isNil (jprop m ''name'') then None else jprop m ''name'')
       \<and> map_of computed ''modelLabel'' = (if isNil (jprop m ''label'') then None else jprop m ''label'')
       \<and> map_of computed ''urlPath'' =
           (if jprop m ''type'' = Some (JStr ''page'')
            then (case fp of Some (JStr p) \<Rightarrow> Some (JStr (urlPathFromFilePath p)) | _ \<Rightarrow> None)
            else None)
       \<and> fst ` set computed \<subseteq> {''modelType'', ''modelName'', ''modelLabel'', ''urlPath''}"
proof -
  from assms obtain m where m: "model = Some m" "m \<noteq> JNull"
    by (cases model; cases "the model") (auto simp: computed_metadata_def)
  show ?thesis
  proof (cases "jprop m ''type'' = Some (JStr ''page'')")
    case True
    with assms m obtain p where p: "fp = Some (JStr p)"
      by (cases m; cases fp; cases "the fp") (auto simp: computed_metadata_def)
    have c: "computed = omitBy_isNil
                      [(''modelType'', jprop m ''type''),
                       (''modelName'', jprop m ''name''),
                       (''modelLabel'', jprop m ''label''),
                       (''urlPath'', Some (JStr (urlPathFromFilePath p)))]"
      using assms m True p by (cases m) (auto simp: computed_metadata_def)
    show ?thesis
      apply (rule exI[of _ m])
      unfolding c using m True p
      by (auto simp: omitBy_isNil_def isNil_def)
  next
    case False
    have c: "computed = omitBy_isNil
                      [(''modelType'', jprop m ''type''),
                       (''modelName'', jprop m ''name''),
                       (''modelLabel'', jprop m ''label''),
                       (''urlPath'', Some JNull)]"
      using assms m False by (cases m) (auto simp: computed_metadata_def)
    show ?thesis
      apply (rule exI[of _ m])
      unfolding c using m False
      by (auto simp: omitBy_isNil_def isNil_def)
  qed
qed

lemma own_entries_JObj: "own_entries (Some (JObj kvs)) = kvs"
  by (simp add: own_entries_def)

lemma own_entries_None: "own_entries None = []"
  by (simp add: own_entries_def)

lemma with_metadata_lookup:
  "jprop (with_metadata kvs computed) ''__metadata'' =
     Some (JObj (assign (assign [] (map_of kvs ''__metadata'')) (Some (JObj computed))))"
  by (simp add: with_metadata_def jprop_def map_of_assign own_entries_def)


text \<open>
  Claim C2, as the code has it. When \<open>addMetadata\<close> returns for an object, the result
  carries a \<open>__metadata\<close> object in which every computed key with a value other than
  \<open>null\<close> or \<open>undefined\<close> (among \<open>modelType\<close>, \<open>modelName\<close>, \<open>modelLabel\<close>, \<open>urlPath\<close>)
  holds the computed value, replacing an entry of the same key, and every other key
  holds what the object's \<open>__metadata\<close> held before; a computed key whose value is
  \<open>null\<close> or \<open>undefined\<close> is not written. (The model is assumed not to declare a field
  named \<open>__metadata\<close>.)
\<close>

theorem metadata_merge:
  assumes "addMetadata (JObj kvs) model cx = Inr (out, ds)"
    and "find_by_name (model_fields model) ''__metadata'' = None"
    and "distinct (map fst (own_entries (map_of kvs ''__metadata'')))"
  shows "\<exists>meta computed m.
           jprop out ''__metadata'' = Some (JObj meta)
         \<and> computed_metadata model (cx_filePath cx) = Inr computed
         \<and> (\<forall>k. map_of meta k =
                (case map_of computed k of
                   Some v \<Rightarrow> Some v
                 | None \<Rightarrow> map_of (own_entries (map_of kvs ''__metadata'')) k))
         \<and> (\<forall>k v. map_of computed k = Some v \<longrightarrow> v \<noteq> JNull)
         \<and> fst ` set computed \<subseteq> {''modelType'', ''modelName'', ''modelLabel'', ''urlPath''}
         \<and> model = Some m
         \<and> map_of computed ''modelType'' = (if isNil (jprop m ''type'') then None else jprop m ''type'')
         \<and> map_of computed ''modelName'' = (if isNil (jprop m ''name'') then None else jprop m ''name'')
         \<and> map_of computed ''modelLabel'' = (if isNil (jprop m ''label'') then None else jprop m ''label'')
         \<and> map_of computed ''urlPath'' =
             (if jprop m ''type'' = Some (JStr ''page'')
              then (case cx_filePath cx of
                      Some (JStr p) \<Rightarrow> Some (JStr (urlPathFromFilePath p)) | _ \<Rightarrow> None)
              else None)"
proof -
  from assms(1) obtain kvs' computed where
    mv: "mapValues_fields kvs (model_fields model) (cx\<lparr>cx_modelFieldPath := start_path model cx\<rparr>) =
           Inr (kvs', ds)"
    and cm: "computed_metadata model (cx_filePath cx) = Inr computed"
    and out: "out = with_metadata kvs' computed"
    unfolding addMetadata_JObj_Inr by blast
  let ?old = "own_entries (map_of kvs ''__metadata'')"
  let ?meta = "assign (assign [] (map_of kvs ''__metadata'')) (Some (JObj computed))"
  have same: "map_of kvs' ''__metadata'' = map_of kvs ''__metadata''"
    using mapValues_fields_undeclared[OF mv assms(2)] .
  from computed_metadata_Inr[OF cm] obtain m where
    m: "model = Some m" and dc: "distinct (map fst computed)"
    and nn: "\<forall>k v. map_of computed k = Some v \<longrightarrow> v \<noteq> JNull"
    and keys: "fst ` set computed \<subseteq> {''modelType'', ''modelName'', ''modelLabel'', ''urlPath''}"
    and t: "map_of computed ''modelType'' = (if isNil (jprop m ''type'') then None else jprop m ''type'')"
    and n: "map_of computed ''modelName'' = (if isNil (jprop m ''name'') then None else jprop m ''name'')"
    and l: "map_of computed ''modelLabel'' = (if isNil (jprop m ''label'') then None else jprop m ''label'')"
    and u: "map_of computed ''urlPath'' =
             (if jprop m ''type'' = Some (JStr ''page'')
              then (case cx_filePath cx of
                      Some (JStr p) \<Rightarrow> Some (JStr (urlPathFromFilePath p)) | _ \<Rightarrow> None)
              else None)"
    by blast
  have look: "jprop out ''__metadata'' = Some (JObj ?meta)"
    unfolding out with_metadata_lookup same ..
  have "map_of ?meta = map_of ?old ++ map_of computed"
    by (simp add: map_of_assign map_of_rev_distinct[OF dc] map_of_rev_distinct[OF assms(3)]
        own_entries_JObj)
  then have merge: "\<forall>k. map_of ?meta k =
      (case map_of computed k of Some v \<Rightarrow> Some v | None \<Rightarrow> map_of ?old k)"
    by (simp add: map_add_def)
  from look cm merge nn keys m t n l u show ?thesis by blast
qed

theorem metadata_merge_witness:
  "\<exists>out ds meta.
     addMetadata (JObj [(''title'', JStr ''First''),
          (''__metadata'', JObj [(''id'', JStr ''posts/first.md''), (''modelName'', JStr ''draft'')])])
        (Some ex_post) ex_top_ctx = Inr (out, ds)
   \<and> jprop out ''__metadata'' = Some (JObj meta)
   \<and> map_of meta ''id'' = Some (JStr ''posts/first.md'')
   \<and> map_of meta ''modelType'' = Some (JStr ''data'')
   \<and> map_of meta ''modelLabel'' = None"
proof -
  let ?kvs = "[(''title'', JStr ''First''),
     (''__metadata'', JObj [(''id'', JStr ''posts/first.md''), (''modelName'', JStr ''draft'')])]"
  let ?out = "JObj [(''title'', JStr ''First''),
               (''__metadata'', JObj [(''id'', JStr ''posts/first.md''), (''modelName'', JStr ''post''),
                                      (''modelType'', JStr ''data'')])]"
  have a: "addMetadata (JObj ?kvs) (Some ex_post) ex_top_ctx = Inr (?out, [])"
    by code_simp
  have b: "find_by_name (model_fields (Some ex_post)) ''__metadata'' = None"
    by code_simp
  have c: "distinct (map fst (own_entries (map_of ?kvs ''__metadata'')))"
    by (simp add: own_entries_JObj)
  from metadata_merge[OF a b c] obtain meta computed m where
    1: "jprop ?out ''__metadata'' = Some (JObj meta)"
    and 2: "\<forall>k. map_of meta k =
                (case map_of computed k of
                   Some v \<Rightarrow> Some v
                 | None \<Rightarrow> map_of (own_entries (map_of ?kvs ''__metadata'')) k)"
    and 3: "Some ex_post = Some m"
    and 4: "map_of computed ''modelType'' = (if isNil (jprop m ''type'') then None else jprop m ''type'')"
    and 5: "map_of computed ''modelLabel'' = (if isNil (jprop m ''label'') then None else jprop m ''label'')"
    and 6: "fst ` set computed \<subseteq> {''modelType'', ''modelName'', ''modelLabel'', ''urlPath''}"
    by blast
  have m: "m = ex_post" using 3 by simp
  have t: "map_of computed ''modelType'' = Some (JStr ''data'')"
    using 4 unfolding m by (simp add: ex_post_def jprop_def isNil_def)
  have l: "map_of computed ''modelLabel'' = None"
    using 5 unfolding m by (simp add: ex_post_def jprop_def isNil_def)
  have i: "map_of computed ''id'' = None"
  proof (rule ccontr)
    assume "map_of computed ''id'' \<noteq> None"
    then have "''id'' \<in> fst ` set computed" by (simp add: map_of_eq_None_iff)
    with 6 show False by auto
  qed
  have "map_of meta ''id'' = Some (JStr ''posts/first.md'')"
    using 2 i by (simp add: own_entries_JObj)
  moreover have "map_of meta ''modelType'' = Some (JStr ''data'')" using 2 t by simp
  moreover have "map_of meta ''modelLabel'' = None" using 2 l by (simp add: own_entries_JObj)
  ultimately show ?thesis using 1 a by blast
qed

text \<open>
  The claim as stated says that a key already present in \<open>__metadata\<close> is never
  overwritten. Here \<open>__metadata.modelName\<close> is \<open>draft\<close> before and \<open>post\<close> after.
\<close>

theorem metadata_overwrite_counterexample:
  "jprop ex_annotated ''__metadata'' =
     Some (JObj [(''id'', JStr ''posts/first.md''), (''modelName'', JStr ''draft'')])
   \<and> addMetadata ex_annotated (Some ex_post) ex_top_ctx =
     Inr (JObj [(''title'', JStr ''First''),
                (''__metadata'', JObj [(''id'', JStr ''posts/first.md''), (''modelName'', JStr ''post''),
                                       (''modelType'', JStr ''data'')])], [])"
proof -
  have "addMetadata ex_annotated (Some ex_post) ex_top_ctx =
     Inr (JObj [(''title'', JStr ''First''),
                (''__metadata'', JObj [(''id'', JStr ''posts/first.md''), (''modelName'', JStr ''post''),
                                       (''modelType'', JStr ''data'')])], [])"
    by code_simp
  then show ?thesis by (simp add: ex_annotated_def jprop_def)
qed

section \<open>Exceptions\<close>

text \<open>
  Claim C8 says that \<open>matchObjectsToModels\<close> returns for every input. The page below
  has a reference field whose value has the type \<open>person.name\<close>. \<open>_.has\<close> reads that
  string as the path \<open>person\<close>, \<open>name\<close> into \<open>modelsByName\<close>, which exists, so the
  check for an existing model passes; \<open>modelsByName["person.name"]\<close> is \<open>undefined\<close>,
  and \<open>addMetadata\<close> raises when it reads \<open>model.name\<close>.
\<close>

theorem matchObjectsToModels_raises:
  "has (keyBy_name [ex_page, ex_person]) (Some (JStr ''person.name''))
   \<and> jprop (keyBy_name [ex_page, ex_person]) ''person.name'' = None
   \<and> matchObjectsToModels getModelByQuery_spec [ex_about] [ex_page, ex_person]
         (transform_config True False) = Inl (Raised TypeError)"
  by code_simp

section \<open>Matching objects to models\<close>

lemma match_step_eq:
  "match_step g cfg pm dm object (accum, ds) =
     ((case matched_entry g cfg pm dm object of
         None \<Rightarrow> accum | Some (k, m) \<Rightarrow> obj_update k m accum),
      ds @ match_errors g cfg pm dm object)"
  by (simp add: match_step_def matched_entry_def match_errors_def resolve_model_def
      split: query_result.splits)

lemma fold_match_step:
  "fold (match_step g cfg pm dm) objects (accum, ds) =
     (fold (\<lambda>(k, m) t. obj_update k m t) (List.map_filter (matched_entry g cfg pm dm) objects) accum,
      ds @ concat (map (match_errors g cfg pm dm) objects))"
proof (induction objects arbitrary: accum ds)
  case Nil
  then show ?case by (simp add: map_filter_simps)
next
  case (Cons object objects)
  show ?case
  proof (cases "matched_entry g cfg pm dm object")
    case None
    then show ?thesis
      using Cons.IH[of accum "ds @ match_errors g cfg pm dm object"]
      by (simp add: match_step_eq map_filter_simps)
  next
    case (Some e)
    obtain k m where e: "e = (k, m)" by (cases e)
    show ?thesis
      using Cons.IH[of "obj_update k m accum" "ds @ match_errors g cfg pm dm object"] Some e
      by (simp add: match_step_eq map_filter_simps)
  qed
qed

lemma annotate_all_Cons_Inr:
  "annotate_all cfg ids byName (object # objects) = Inr (r, ds) \<longleftrightarrow>
     (\<exists>object' d objects' d'. annotate_object cfg ids byName object = Inr (object', d) \<and>
        annotate_all cfg ids byName objects = Inr (objects', d') \<and>
        r = object' # objects' \<and> ds = d @ d')"
proof (cases "annotate_object cfg ids byName object")
  case (Inl e)
  then show ?thesis by simp
next
  case (Inr p)
  obtain v d where p: "p = (v, d)" by (cases p)
  show ?thesis
  proof (cases "annotate_all cfg ids byName objects")
    case (Inl e)
    then show ?thesis using Inr p by simp
  next
    case r: (Inr q)
    obtain vs d' where q: "q = (vs, d')" by (cases q)
    show ?thesis using Inr p r q by auto
  qed
qed

lemma annotate_all_nth:
  "annotate_all cfg ids byName objects = Inr (objects', ds) \<Longrightarrow>
   length objects' = length objects \<and>
   (\<forall>n<length objects. \<exists>d. annotate_object cfg ids byName (objects ! n) = Inr (objects' ! n, d))"
proof (induction objects arbitrary: objects' ds)
  case Nil
  then show ?case by simp
next
  case (Cons object objects)
  from Cons.prems obtain object' d r d' where
    h: "annotate_object cfg ids byName object = Inr (object', d)"
    and t: "annotate_all cfg ids byName objects = Inr (r, d')"
    and o: "objects' = object' # r"
    unfolding annotate_all_Cons_Inr by blast
  from Cons.IH[OF t] have l: "length r = length objects"
    and e: "\<forall>n<length objects. \<exists>d. annotate_object cfg ids byName (objects ! n) = Inr (r ! n, d)"
    by auto
  have "\<forall>n<length (object # objects).
          \<exists>d. annotate_object cfg ids byName ((object # objects) ! n) = Inr (objects' ! n, d)"
  proof (intro allI impI)
    fix n assume n: "n < length (object # objects)"
    show "\<exists>d. annotate_object cfg ids byName ((object # objects) ! n) = Inr (objects' ! n, d)"
    proof (cases n)
      case 0
      then show ?thesis using h o by auto
    next
      case (Suc j)
      then have "j < length objects" using n by simp
      then show ?thesis using e o Suc by simp
    qed
  qed
  then show ?case using l o by simp
qed

lemma matchObjectsToModels_Inr:
  assumes "matchObjectsToModels g objects models cfg = Inr (objects', ds)"
  shows "\<exists>objs' ds3 ds4.
           annotate_all cfg
             (JObj (fst (fold (match_step g cfg (models_of_type ''page'' models)
                                (models_of_type ''data'' models)) objects ([], [Info_Matching]))))
             (keyBy_name models) objects = Inr (objs', ds4)
         \<and> ds = ds3 @ ds4
         \<and> set (snd (fold (match_step g cfg (models_of_type ''page'' models)
                              (models_of_type ''data'' models)) objects ([], [Info_Matching]))) \<subseteq> set ds3
         \<and> take (length objects) objects' = map of_json objs'"
proof -
  let ?F = "fold (match_step g cfg (models_of_type ''page'' models)
                (models_of_type ''data'' models)) objects ([], [Info_Matching])"
  obtain accum ds1 where F: "?F = (accum, ds1)" by (cases ?F)
  let ?ds2 = "ds1 @ [Info_Count (length accum) (length objects)]"
  let ?L = "if cfg_logMatchedModels cfg then
              (case matched_models_log accum of Inl e \<Rightarrow> Inl e | Inr d \<Rightarrow> Inr (?ds2 @ [d]))
            else Inr ?ds2"
  have unf: "matchObjectsToModels g objects models cfg =
     (case ?L of
        Inl e \<Rightarrow> Inl (Raised e)
      | Inr ds3 \<Rightarrow>
          (case annotate_all cfg (JObj accum) (keyBy_name models) objects of
             Inl e \<Rightarrow> Inl (Raised e)
           | Inr (objects', ds4) \<Rightarrow>
               if cfg_mergeDataModels cfg then
                 (case merge_data (filter matches_data objects')
                         (cfg_objectFileKeyPath cfg) (cfg_source cfg) of
                    Inl e \<Rightarrow> Inl e
                  | Inr mergedDataObject \<Rightarrow>
                      Inr (map of_json objects' @ [mergedDataObject], ds3 @ ds4))
               else Inr (map of_json objects', ds3 @ ds4)))"
    by (simp add: matchObjectsToModels_def Let_def F)
  show ?thesis
  proof (cases ?L)
    case (Inl e)
    then show ?thesis using assms unfolding unf by simp
  next
    case L: (Inr ds3)
    have sub: "set ds1 \<subseteq> set ds3"
      using L by (auto split: if_splits sum.splits)
    show ?thesis
    proof (cases "annotate_all cfg (JObj accum) (keyBy_name models) objects")
      case (Inl e)
      then show ?thesis using assms L unfolding unf by simp
    next
      case A: (Inr p)
      obtain objs' ds4 where p: "p = (objs', ds4)" by (cases p)
      have len: "length objs' = length objects"
        using annotate_all_nth[of cfg "JObj accum" "keyBy_name models" objects objs' ds4] A p by simp
      show ?thesis
      proof (cases "cfg_mergeDataModels cfg")
        case False
        then have "objects' = map of_json objs'" "ds = ds3 @ ds4"
          using assms L A p unfolding unf by simp_all
        then show ?thesis using A p sub len F by simp
      next
        case True
        show ?thesis
        proof (cases "merge_data (filter matches_data objs')
                         (cfg_objectFileKeyPath cfg) (cfg_source cfg)")
          case (Inl e)
          then show ?thesis using assms L A p True unfolding unf by simp
        next
          case (Inr merged)
          then have "objects' = map of_json objs' @ [merged]" "ds = ds3 @ ds4"
            using assms L A p True unfolding unf by simp_all
          then show ?thesis using A p sub len F by simp
        qed
      qed
    qed
  qed
qed

lemma baseGet_None: "baseGet None p = None"
  by (cases p) simp_all


lemma get_model_absent:
  assumes "map_of accum i = None"
    and "\<forall>k\<in>set (take 1 (stringToPath i)). map_of accum k = None"
  shows "get_path (JObj accum) (castPath (Some (JStr i)) (JObj accum)) = None"
proof (cases "isKey i (JObj accum)")
  case True
  then have "castPath (Some (JStr i)) (JObj accum) = [i]" by (simp add: castPath_def)
  then show ?thesis using assms(1) by (simp add: get_path_def jprop_def)
next
  case False
  then have c: "castPath (Some (JStr i)) (JObj accum) = stringToPath i" by (simp add: castPath_def)
  show ?thesis
  proof (cases "stringToPath i")
    case Nil
    then show ?thesis unfolding c by (simp add: get_path_def)
  next
    case (Cons k ks)
    then have "map_of accum k = None" using assms(2) by simp
    then show ?thesis unfolding c Cons by (simp add: get_path_def jprop_def baseGet_None)
  qed
qed

lemma accum_lookup:
  "map_of (fst (fold (match_step g cfg pm dm) objects ([], ds0))) =
     map_of (rev (List.map_filter (matched_entry g cfg pm dm) objects))"
  by (simp add: fold_match_step map_of_fold_update)

lemma accum_errors:
  "snd (fold (match_step g cfg pm dm) objects ([], ds0)) =
     ds0 @ concat (map (match_errors g cfg pm dm) objects)"
  by (simp add: fold_match_step)

lemma map_of_rev_map_filter_None:
  assumes "\<forall>ob\<in>set objects. \<forall>k m. f ob = Some (k, m) \<longrightarrow> k \<noteq> i"
  shows "map_of (rev (List.map_filter f objects)) i = None"
proof -
  have "i \<notin> fst ` set (rev (List.map_filter f objects))"
    using assms by (auto simp: map_filter_def image_iff)
  then show ?thesis by (simp add: map_of_eq_None_iff)
qed


lemma annotate_object_unmatched:
  assumes "get object (cfg_objectIdKeyPath cfg) = Some (JStr i)"
    and "map_of accum i = None"
    and "\<forall>k\<in>set (take 1 (stringToPath i)). map_of accum k = None"
  shows "annotate_object cfg (JObj accum) byName object = Inr (object, [])"
  using assms get_model_absent[OF assms(2,3)]
  by (simp add: annotate_object_def Let_def truthy_def)


lemma unmatched_annotate:
  assumes n: "n < length objects"
    and oid: "get (objects ! n) (cfg_objectIdKeyPath cfg) = Some (JStr i)"
    and err: "resolve_model g cfg (models_of_type ''page'' models) (models_of_type ''data'' models)
                (objects ! n) = Some (QError msg)"
    and other: "\<forall>ob\<in>set objects. \<forall>k m.
                  matched_entry g cfg (models_of_type ''page'' models) (models_of_type ''data'' models) ob =
                    Some (k, m) \<longrightarrow> k \<noteq> i \<and> k \<notin> set (take 1 (stringToPath i))"
  shows "annotate_object cfg
           (JObj (fst (fold (match_step g cfg (models_of_type ''page'' models)
                              (models_of_type ''data'' models)) objects ([], [Info_Matching]))))
           (keyBy_name models) (objects ! n) = Inr (objects ! n, [])"
    and "MatchError msg \<in> set (snd (fold (match_step g cfg (models_of_type ''page'' models)
                              (models_of_type ''data'' models)) objects ([], [Info_Matching])))"
proof -
  let ?pm = "models_of_type ''page'' models"
  let ?dm = "models_of_type ''data'' models"
  let ?F = "fold (match_step g cfg ?pm ?dm) objects ([], [Info_Matching])"
  have n1: "map_of (fst ?F) i = None"
    unfolding accum_lookup by (rule map_of_rev_map_filter_None) (use other in blast)
  have n2: "\<forall>k\<in>set (take 1 (stringToPath i)). map_of (fst ?F) k = None"
  proof
    fix k assume "k \<in> set (take 1 (stringToPath i))"
    then show "map_of (fst ?F) k = None"
      unfolding accum_lookup by (intro map_of_rev_map_filter_None) (use other in blast)
  qed
  show "annotate_object cfg (JObj (fst ?F)) (keyBy_name models) (objects ! n) = Inr (objects ! n, [])"
    by (rule annotate_object_unmatched[OF oid n1 n2])
  have "match_errors g cfg ?pm ?dm (objects ! n) = [MatchError msg]"
    using err by (simp add: match_errors_def)
  moreover have "objects ! n \<in> set objects" using n by simp
  ultimately have "\<exists>ob\<in>set objects. MatchError msg \<in> set (match_errors g cfg ?pm ?dm ob)"
    by (intro bexI[of _ "objects ! n"]) simp_all
  then have "MatchError msg \<in> set (concat (map (match_errors g cfg ?pm ?dm) objects))"
    by simp
  then show "MatchError msg \<in> set (snd ?F)" unfolding accum_errors by simp
qed

lemma unmatched_passes_through:
  assumes run: "matchObjectsToModels g objects models cfg = Inr (objects', ds)"
    and n: "n < length objects"
    and oid: "get (objects ! n) (cfg_objectIdKeyPath cfg) = Some (JStr i)"
    and err: "resolve_model g cfg (models_of_type ''page'' models) (models_of_type ''data'' models)
                (objects ! n) = Some (QError msg)"
    and other: "\<forall>ob\<in>set objects. \<forall>k m.
                  matched_entry g cfg (models_of_type ''page'' models) (models_of_type ''data'' models) ob =
                    Some (k, m) \<longrightarrow> k \<noteq> i \<and> k \<notin> set (take 1 (stringToPath i))"
  shows "objects' ! n = of_json (objects ! n) \<and> MatchError msg \<in> set ds"
proof -
  let ?pm = "models_of_type ''page'' models"
  let ?dm = "models_of_type ''data'' models"
  let ?F = "fold (match_step g cfg ?pm ?dm) objects ([], [Info_Matching])"
  from matchObjectsToModels_Inr[OF run] obtain objs' ds3 ds4 where
    a: "annotate_all cfg (JObj (fst ?F)) (keyBy_name models) objects = Inr (objs', ds4)"
    and d: "ds = ds3 @ ds4" and s: "set (snd ?F) \<subseteq> set ds3"
    and t: "take (length objects) objects' = map of_json objs'"
    by blast
  from annotate_all_nth[OF a] n obtain d' where
    l: "length objs' = length objects"
    and e: "annotate_object cfg (JObj (fst ?F)) (keyBy_name models) (objects ! n) = Inr (objs' ! n, d')"
    by blast
  note u = unmatched_annotate[OF n oid err other]
  from e u(1) have "objs' ! n = objects ! n" by simp
  moreover have "objects' ! n = of_json (objs' ! n)"
    using t n l nth_take[of n "length objects" objects'] by (metis nth_map)
  ultimately have 1: "objects' ! n = of_json (objects ! n)" by simp
  have 2: "MatchError msg \<in> set ds" using u(2) s d by auto
  from 1 2 show ?thesis by simp
qed

lemma addMetadata_not_object:
  assumes "\<not> isPlainObject data" and "\<not> (cx_modelFieldPath cx = [] \<and> isNil model)"
  shows "addMetadata data model cx =
           Inr (data, [ValueMustBeObject (location_of cx (start_path model cx))])"
  using assms by (cases data) (simp_all add: addMetadata.simps isPlainObject_def)

lemma models_property_invalid:
  assumes "jprop fieldModel ''type'' = Some (JStr ''model'')"
    and "\<forall>ms. jprop fieldModel ''models'' = Some (JArr ms) \<longrightarrow> ms = []"
  shows "mapObjectField fieldValue fieldModel cx =
           Inr (fieldValue, [ModelsPropertyInvalid (location_of cx (cx_modelFieldPath cx))])"
proof -
  have nn: "fieldModel \<noteq> JNull" using assms(1) by (rule jprop_not_null)
  show ?thesis
  proof (cases "jprop fieldModel ''models''")
    case None
    then show ?thesis using assms nn by (simp add: mapObjectField.simps fieldDispatch_def)
  next
    case (Some v)
    then show ?thesis using assms nn
      by (cases v) (simp_all add: mapObjectField.simps fieldDispatch_def)
  qed
qed

lemma models_name_unknown:
  assumes "jprop fieldModel ''type'' = Some (JStr ''model'')"
    and "jprop fieldModel ''models'' = Some (JArr [n])"
    and "\<not> has (cx_modelsByName cx) (Some n)"
  shows "mapObjectField fieldValue fieldModel cx =
           Inr (fieldValue, [ModelsNameUnknown (location_of cx (cx_modelFieldPath cx))])"
proof -
  have nn: "fieldModel \<noteq> JNull" using assms(1) by (rule jprop_not_null)
  show ?thesis using assms nn by (simp add: mapObjectField.simps fieldDispatch_def)
qed

lemma type_property_missing:
  assumes "jprop fieldModel ''type'' = Some (JStr ''model'')"
    and "jprop fieldModel ''models'' = Some (JArr ms)" and "1 < length ms"
    and "\<not> has fieldValue (Some (JStr ''type''))"
  shows "mapObjectField fieldValue fieldModel cx =
           Inr (fieldValue, [TypePropertyMissing (location_of cx (cx_modelFieldPath cx))])"
proof -
  have nn: "fieldModel \<noteq> JNull" using assms(1) by (rule jprop_not_null)
  show ?thesis using assms nn by (auto simp: mapObjectField.simps fieldDispatch_def)
qed

lemma type_property_unknown:
  assumes "jprop fieldModel ''type'' = Some (JStr ''model'')"
    and "jprop fieldModel ''models'' = Some (JArr ms)" and "1 < length ms"
    and "has fieldValue (Some (JStr ''type''))"
    and "\<not> has (cx_modelsByName cx) (jprop fieldValue ''type'')"
  shows "mapObjectField fieldValue fieldModel cx =
           Inr (fieldValue, [TypePropertyUnknown (location_of cx (cx_modelFieldPath cx))])"
proof -
  have nn: "fieldModel \<noteq> JNull" using assms(1) by (rule jprop_not_null)
  show ?thesis using assms nn by (auto simp: mapObjectField.simps fieldDispatch_def)
qed

lemma list_must_be_array:
  assumes "jprop fieldModel ''type'' = Some (JStr ''list'')" and "\<not> isArray fieldValue"
  shows "mapObjectField fieldValue fieldModel cx =
           Inr (fieldValue, [ListMustBeArray (location_of cx (cx_modelFieldPath cx))])"
  unfolding mapObjectField_list[OF assms(1)] using assms(2)
  by (cases fieldValue) (simp_all add: isArray_def)




text \<open>
  Claim C3, as the code has it. Each place that logs an error returns the value it was
  given: \<open>addMetadata\<close> on a value that is not a plain object (shape error); a field of
  type \<open>model\<close> without a non-empty \<open>models\<close> array, with one name that \<open>_.has\<close> does not
  find, or with several names and a value whose \<open>type\<close> is missing or is not found by
  \<open>_.has\<close> (schema errors); a field of type \<open>list\<close> whose value is not an array (shape
  error). An object for which \<open>getModelByQuery\<close> gives an error is logged, and the
  annotation phase returns it as it is when its id is a string, no matched object is
  stored under that id, under the first key of the id read as a path, or under
  \<open>__proto__\<close>, and neither the id nor that first key is the name of a property of
  \<open>Object.prototype\<close>. Whenever \<open>matchObjectsToModels\<close> returns, the message is among
  those logged, and the object stands in the result as it was in the input unless it is
  one that \<open>mergeDataObjects\<close> puts into the merged tree.
\<close>

theorem failure_paths_pass_through:
  "(\<not> isPlainObject data \<and> \<not> (cx_modelFieldPath cx = [] \<and> isNil model) \<longrightarrow>
      addMetadata data model cx =
        Inr (data, [ValueMustBeObject (location_of cx (start_path model cx))]))
   \<and> (jprop fieldModel ''type'' = Some (JStr ''model'') \<and>
       (\<forall>ms. jprop fieldModel ''models'' = Some (JArr ms) \<longrightarrow> ms = []) \<longrightarrow>
      mapObjectField fieldValue fieldModel cx =
        Inr (fieldValue, [ModelsPropertyInvalid (location_of cx (cx_modelFieldPath cx))]))
   \<and> (\<forall>n. jprop fieldModel ''type'' = Some (JStr ''model'') \<and>
       jprop fieldModel ''models'' = Some (JArr [n]) \<and>
       \<not> has (cx_modelsByName cx) (Some n) \<longrightarrow>
      mapObjectField fieldValue fieldModel cx =
        Inr (fieldValue, [ModelsNameUnknown (location_of cx (cx_modelFieldPath cx))]))
   \<and> (\<forall>ms. jprop fieldModel ''type'' = Some (JStr ''model'') \<and>
       jprop fieldModel ''models'' = Some (JArr ms) \<and> 1 < length ms \<and>
       \<not> has fieldValue (Some (JStr ''type'')) \<longrightarrow>
      mapObjectField fieldValue fieldModel cx =
        Inr (fieldValue, [TypePropertyMissing (location_of cx (cx_modelFieldPath cx))]))
   \<and> (\<forall>ms. jprop fieldModel ''type'' = Some (JStr ''model'') \<and>
       jprop fieldModel ''models'' = Some (JArr ms) \<and> 1 < length ms \<and>
       has fieldValue (Some (JStr ''type'')) \<and>
       \<not> has (cx_modelsByName cx) (jprop fieldValue ''type'') \<longrightarrow>
      mapObjectField fieldValue fieldModel cx =
        Inr (fieldValue, [TypePropertyUnknown (location_of cx (cx_modelFieldPath cx))]))
   \<and> (jprop fieldModel ''type'' = Some (JStr ''list'') \<and> \<not> isArray fieldValue \<longrightarrow>
      mapObjectField fieldValue fieldModel cx =
        Inr (fieldValue, [ListMustBeArray (location_of cx (cx_modelFieldPath cx))]))
   \<and> (\<forall>n i msg.
       n < length objects \<and>
       get (objects ! n) (cfg_objectIdKeyPath cfg) = Some (JStr i) \<and>
       resolve_model g cfg (models_of_type ''page'' models) (models_of_type ''data'' models)
         (objects ! n) = Some (QError msg) \<and>
       i \<notin> set object_prototype_keys \<and>
       (\<forall>k\<in>set (take 1 (stringToPath i)). k \<notin> set object_prototype_keys) \<and>
       (\<forall>ob\<in>set objects. \<forall>k m.
          matched_entry g cfg (models_of_type ''page'' models) (models_of_type ''data'' models) ob =
            Some (k, m) \<longrightarrow>
          k \<noteq> i \<and> k \<notin> set (take 1 (stringToPath i)) \<and> k \<noteq> ''__proto__'') \<longrightarrow>
       annotate_object cfg
         (JObj (fst (fold (match_step g cfg (models_of_type ''page'' models)
                            (models_of_type ''data'' models)) objects ([], [Info_Matching]))))
         (keyBy_name models) (objects ! n) = Inr (objects ! n, []) \<and>
       MatchError msg \<in> set (snd (fold (match_step g cfg (models_of_type ''page'' models)
                            (models_of_type ''data'' models)) objects ([], [Info_Matching]))) \<and>
       (\<forall>objects' ds. matchObjectsToModels g objects models cfg = Inr (objects', ds) \<longrightarrow>
          MatchError msg \<in> set ds \<and>
          (\<not> (cfg_mergeDataModels cfg \<and> matches_data (objects ! n)) \<longrightarrow>
             objects' ! n = of_json (objects ! n))))
   \<and> (\<forall>l. isShapeError (ValueMustBeObject l) \<and> isShapeError (ListMustBeArray l) \<and>
          isSchemaError (ModelsPropertyInvalid l) \<and> isSchemaError (ModelsNameUnknown l) \<and>
          isSchemaError (TypePropertyMissing l) \<and> isSchemaError (TypePropertyUnknown l))"
proof (intro conjI allI impI)
  assume "\<not> isPlainObject data \<and> \<not> (cx_modelFieldPath cx = [] \<and> isNil model)"
  then show "addMetadata data model cx =
        Inr (data, [ValueMustBeObject (location_of cx (start_path model cx))])"
    using addMetadata_not_object by blast
next
  assume "jprop fieldModel ''type'' = Some (JStr ''model'') \<and>
       (\<forall>ms. jprop fieldModel ''models'' = Some (JArr ms) \<longrightarrow> ms = [])"
  then show "mapObjectField fieldValue fieldModel cx =
        Inr (fieldValue, [ModelsPropertyInvalid (location_of cx (cx_modelFieldPath cx))])"
    using models_property_invalid by blast
next
  fix n
  assume "jprop fieldModel ''type'' = Some (JStr ''model'') \<and>
       jprop fieldModel ''models'' = Some (JArr [n]) \<and>
       \<not> has (cx_modelsByName cx) (Some n)"
  then show "mapObjectField fieldValue fieldModel cx =
        Inr (fieldValue, [ModelsNameUnknown (location_of cx (cx_modelFieldPath cx))])"
    using models_name_unknown by blast
next
  fix ms
  assume "jprop fieldModel ''type'' = Some (JStr ''model'') \<and>
       jprop fieldModel ''models'' = Some (JArr ms) \<and> 1 < length ms \<and>
       \<not> has fieldValue (Some (JStr ''type''))"
  then show "mapObjectField fieldValue fieldModel cx =
        Inr (fieldValue, [TypePropertyMissing (location_of cx (cx_modelFieldPath cx))])"
    using type_property_missing by blast
next
  fix ms
  assume "jprop fieldModel ''type'' = Some (JStr ''model'') \<and>
       jprop fieldModel ''models'' = Some (JArr ms) \<and> 1 < length ms \<and>
       has fieldValue (Some (JStr ''type'')) \<and>
       \<not> has (cx_modelsByName cx) (jprop fieldValue ''type'')"
  then show "mapObjectField fieldValue fieldModel cx =
        Inr (fieldValue, [TypePropertyUnknown (location_of cx (cx_modelFieldPath cx))])"
    using type_property_unknown by blast
next
  assume "jprop fieldModel ''type'' = Some (JStr ''list'') \<and> \<not> isArray fieldValue"
  then show "mapObjectField fieldValue fieldModel cx =
        Inr (fieldValue, [ListMustBeArray (location_of cx (cx_modelFieldPath cx))])"
    using list_must_be_array by blast
next
  fix n i msg
  let ?pm = "models_of_type ''page'' models"
  let ?dm = "models_of_type ''data'' models"
  assume h: "n < length objects \<and>
       get (objects ! n) (cfg_objectIdKeyPath cfg) = Some (JStr i) \<and>
       resolve_model g cfg ?pm ?dm (objects ! n) = Some (QError msg) \<and>
       i \<notin> set object_prototype_keys \<and>
       (\<forall>k\<in>set (take 1 (stringToPath i)). k \<notin> set object_prototype_keys) \<and>
       (\<forall>ob\<in>set objects. \<forall>k m.
          matched_entry g cfg ?pm ?dm ob = Some (k, m) \<longrightarrow>
          k \<noteq> i \<and> k \<notin> set (take 1 (stringToPath i)) \<and> k \<noteq> ''__proto__'')"
  have n: "n < length objects" and oid: "get (objects ! n) (cfg_objectIdKeyPath cfg) = Some (JStr i)"
    and err: "resolve_model g cfg ?pm ?dm (objects ! n) = Some (QError msg)"
    using h by simp_all
  have other: "\<forall>ob\<in>set objects. \<forall>k m.
          matched_entry g cfg ?pm ?dm ob = Some (k, m) \<longrightarrow>
          k \<noteq> i \<and> k \<notin> set (take 1 (stringToPath i))"
    using h by blast
  note u = unmatched_annotate[OF n oid err other]
  show "annotate_object cfg (JObj (fst (fold (match_step g cfg ?pm ?dm) objects ([], [Info_Matching]))))
         (keyBy_name models) (objects ! n) = Inr (objects ! n, [])"
    by (rule u(1))
  show "MatchError msg \<in> set (snd (fold (match_step g cfg ?pm ?dm) objects ([], [Info_Matching])))"
    by (rule u(2))
  {
    fix objects' ds
    assume run: "matchObjectsToModels g objects models cfg = Inr (objects', ds)"
    note p = unmatched_passes_through[OF run n oid err other]
    from p show "MatchError msg \<in> set ds" by simp
    from p show "objects' ! n = of_json (objects ! n)" by simp
  }
qed simp_all

theorem failure_paths_pass_through_witness:
  "annotate_object (transform_config True False)
     (JObj (fst (fold (match_step getModelByQuery_spec (transform_config True False)
                         (models_of_type ''page'' [ex_page, ex_person])
                         (models_of_type ''data'' [ex_page, ex_person]))
                  [ex_dup_page, ex_lonely] ([], [Info_Matching]))))
     (keyBy_name [ex_page, ex_person]) ex_lonely = Inr (ex_lonely, [])
   \<and> (\<exists>objects' ds.
        matchObjectsToModels getModelByQuery_spec [ex_dup_page, ex_lonely] [ex_page, ex_person]
          (transform_config True False) = Inr (objects', ds)
      \<and> objects' ! 1 = of_json ex_lonely
      \<and> MatchError ''no model, or more than one, for the type'' \<in> set ds)"
proof -
  let ?cfg = "transform_config True False"
  let ?models = "[ex_page, ex_person]"
  let ?objects = "[ex_dup_page, ex_lonely]"
  let ?f = "matched_entry getModelByQuery_spec ?cfg (models_of_type ''page'' ?models)
              (models_of_type ''data'' ?models)"
  let ?objects' = "[of_json (JObj [(''__metadata'', JObj [(''id'', JStr ''content/a.md''),
                      (''sourceName'', JStr ''pages''), (''relSourcePath'', JStr ''a.md''),
                      (''modelType'', JStr ''page''), (''modelName'', JStr ''page''),
                      (''urlPath'', JStr ''/a'')]),
                    (''title'', JStr ''A'')]),
              of_json (JObj [(''__metadata'', JObj [(''id'', JStr ''data/x.yaml''),
                      (''sourceName'', JStr ''data''), (''relSourcePath'', JStr ''x.yaml'')]),
                    (''type'', JStr ''unknown'')]),
              TObj [(''__metadata'', TObj [(''id'', TStr ''sourcebit-source-filesystem:data''),
                      (''source'', TStr ''sourcebit-source-filesystem'')])]]"
  let ?ds = "[Info_Matching, MatchError ''no model, or more than one, for the type'', Info_Count 1 2]"
  have run: "matchObjectsToModels getModelByQuery_spec ?objects ?models ?cfg = Inr (?objects', ?ds)"
    by code_simp
  have n: "(1::nat) < length ?objects" by simp
  have i: "get (?objects ! 1) (cfg_objectIdKeyPath ?cfg) = Some (JStr ''data/x.yaml'')"
    by code_simp
  have e: "resolve_model getModelByQuery_spec ?cfg (models_of_type ''page'' ?models)
             (models_of_type ''data'' ?models) (?objects ! 1) =
           Some (QError ''no model, or more than one, for the type'')"
    by code_simp
  have nm: "\<not> (cfg_mergeDataModels ?cfg \<and> matches_data (?objects ! 1))"
    by code_simp
  have m1: "?f ex_dup_page = Some (''content/a.md'', ex_page)" by code_simp
  have m2: "?f ex_lonely = None" by code_simp
  have p: "take 1 (stringToPath ''data/x.yaml'') = [''data/x'']" by code_simp
  have k1: "''data/x.yaml'' \<notin> set object_prototype_keys" by code_simp
  have k2: "\<forall>k\<in>set (take 1 (stringToPath ''data/x.yaml'')). k \<notin> set object_prototype_keys"
    unfolding p by code_simp
  have other: "\<forall>ob\<in>set ?objects. \<forall>k m. ?f ob = Some (k, m) \<longrightarrow>
                 k \<noteq> ''data/x.yaml'' \<and> k \<notin> set (take 1 (stringToPath ''data/x.yaml'')) \<and>
                 k \<noteq> ''__proto__''"
    unfolding p using m1 m2 by auto
  note T = failure_paths_pass_through[of _ _ _ _ _ ?objects ?cfg getModelByQuery_spec ?models,
      THEN conjunct2, THEN conjunct2, THEN conjunct2, THEN conjunct2, THEN conjunct2,
      THEN conjunct2, THEN conjunct1, rule_format, of 1 "''data/x.yaml''"
      "''no model, or more than one, for the type''"]
  have hyp: "1 < length ?objects \<and>
       get (?objects ! 1) (cfg_objectIdKeyPath ?cfg) = Some (JStr ''data/x.yaml'') \<and>
       resolve_model getModelByQuery_spec ?cfg (models_of_type ''page'' ?models)
         (models_of_type ''data'' ?models) (?objects ! 1) =
         Some (QError ''no model, or more than one, for the type'') \<and>
       ''data/x.yaml'' \<notin> set object_prototype_keys \<and>
       (\<forall>k\<in>set (take 1 (stringToPath ''data/x.yaml'')). k \<notin> set object_prototype_keys) \<and>
       (\<forall>ob\<in>set ?objects. \<forall>k m. ?f ob = Some (k, m) \<longrightarrow>
          k \<noteq> ''data/x.yaml'' \<and> k \<notin> set (take 1 (stringToPath ''data/x.yaml'')) \<and>
          k \<noteq> ''__proto__'')"
    using n i e k1 k2 other by blast
  from T[OF hyp]
  have a: "annotate_object ?cfg
     (JObj (fst (fold (match_step getModelByQuery_spec ?cfg
                         (models_of_type ''page'' ?models) (models_of_type ''data'' ?models))
                  ?objects ([], [Info_Matching]))))
     (keyBy_name ?models) (?objects ! 1) = Inr (?objects ! 1, [])"
    and c: "\<forall>objects' ds. matchObjectsToModels getModelByQuery_spec ?objects ?models ?cfg =
               Inr (objects', ds) \<longrightarrow>
             MatchError ''no model, or more than one, for the type'' \<in> set ds \<and>
             (\<not> (cfg_mergeDataModels ?cfg \<and> matches_data (?objects ! 1)) \<longrightarrow>
                objects' ! 1 = of_json (?objects ! 1))"
    by blast+
  from c run nm have "?objects' ! 1 = of_json (?objects ! 1) \<and>
        MatchError ''no model, or more than one, for the type'' \<in> set ?ds"
    by blast
  with run a show ?thesis by auto
qed

text \<open>
  The claim as stated has every unmatched object pass through unchanged. Two objects
  below carry the id \<open>content/a.md\<close>; the first is matched to the model \<open>page\<close>, the
  second matches no model, and the second is annotated with \<open>page\<close> all the same.
\<close>

theorem unmatched_duplicate_id_counterexample:
  "resolve_model getModelByQuery_spec (transform_config False False)
      (models_of_type ''page'' [ex_page, ex_person]) (models_of_type ''data'' [ex_page, ex_person])
      ex_dup_data = Some (QError ''no model, or more than one, for the type'')
   \<and> matchObjectsToModels getModelByQuery_spec [ex_dup_page, ex_dup_data] [ex_page, ex_person]
       (transform_config False False) =
     Inr (map of_json
          [JObj [(''__metadata'', JObj [(''id'', JStr ''content/a.md''),
                    (''sourceName'', JStr ''pages''), (''relSourcePath'', JStr ''a.md''),
                    (''modelType'', JStr ''page''), (''modelName'', JStr ''page''),
                    (''urlPath'', JStr ''/a'')]),
                 (''title'', JStr ''A'')],
           JObj [(''__metadata'', JObj [(''id'', JStr ''content/a.md''),
                    (''sourceName'', JStr ''data''), (''relSourcePath'', JStr ''a.md''),
                    (''modelType'', JStr ''page''), (''modelName'', JStr ''page''),
                    (''urlPath'', JStr ''/a'')]),
                 (''type'', JStr ''unknown'')]],
          [Info_Matching, MatchError ''no model, or more than one, for the type'', Info_Count 1 2])
   \<and> of_json (JObj [(''__metadata'', JObj [(''id'', JStr ''content/a.md''),
                    (''sourceName'', JStr ''data''), (''relSourcePath'', JStr ''a.md''),
                    (''modelType'', JStr ''page''), (''modelName'', JStr ''page''),
                    (''urlPath'', JStr ''/a'')]),
                 (''type'', JStr ''unknown'')]) \<noteq> of_json ex_dup_data"
  by code_simp

section \<open>Merging data objects\<close>

lemma map_of_insert_prop:
  "map_of kvs k = None \<Longrightarrow> map_of (insert_prop k v kvs) = (map_of kvs)(k \<mapsto> v)"
  by (induction kvs) (auto simp: fun_eq_iff split: if_splits)

lemma map_of_put_prop: "map_of (put_prop k v kvs) = (map_of kvs)(k \<mapsto> v)"
  by (simp add: put_prop_def map_of_insert_prop update_conv')

lemma entry_assignValue:
  assumes "assignValue nested k v = Inr t'" and "isObject nested"
  shows "entry t' k' = (if k' = k then Some v else entry nested k')" and "isObject t'"
  using assms
  by (cases nested; auto simp: assignValue_def entry_def isObject_def map_of_put_prop split: if_splits)+

lemma isObject_new_container: "isObject (new_container k)"
  by (simp add: new_container_def isObject_def)

lemma at_path_new_container: "qs \<noteq> [] \<Longrightarrow> at_path (new_container k) qs = None"
  by (cases qs) (auto simp: new_container_def entry_def)

lemma at_path_primitive: "\<not> isObject w \<Longrightarrow> qs \<noteq> [] \<Longrightarrow> at_path w qs = None"
  by (cases qs; cases w) (auto simp: entry_def isObject_def)

text \<open>What \<open>baseSet\<close> enters or creates under the key \<open>k\<close> on the way to the next key.\<close>

lemma newValue_for_Some:
  assumes "newValue_for nested k k' = Some new"
  shows "isObject new"
    and "qs \<noteq> [] \<Longrightarrow> at_path new qs = (case entry nested k of None \<Rightarrow> None | Some w \<Rightarrow> at_path w qs)"
proof -
  show "isObject new"
    using assms by (auto simp: newValue_for_def isObject_new_container split: slot.splits if_splits)
  assume qs: "qs \<noteq> []"
  show "at_path new qs = (case entry nested k of None \<Rightarrow> None | Some w \<Rightarrow> at_path w qs)"
  proof (cases "read_prop nested k")
    case (Own w)
    then have e: "entry nested k = Some w"
      by (cases nested) (auto simp: read_prop_def entry_def split: option.splits if_splits)
    show ?thesis
    proof (cases "isObject w")
      case True
      then show ?thesis using assms Own e by (simp add: newValue_for_def)
    next
      case False
      then have "new = new_container k'" using assms Own by (simp add: newValue_for_def)
      then show ?thesis
        using False e qs by (simp add: at_path_new_container at_path_primitive)
    qed
  next
    case Builtin
    then show ?thesis using assms by (simp add: newValue_for_def)
  next
    case Absent
    then have e: "entry nested k = None"
      by (cases nested) (auto simp: read_prop_def entry_def split: option.splits if_splits)
    have "new = new_container k'" using assms Absent by (simp add: newValue_for_def)
    then show ?thesis using e qs by (simp add: at_path_new_container)
  qed
qed

lemma baseSet_step:
  assumes "baseSet nested (k # k' # ks) v = Inr t'" and "\<not> unsafe_key k"
  obtains new sub where
    "newValue_for nested k k' = Some new"
    and "baseSet new (k' # ks) v = Inr sub" and "assignValue nested k sub = Inr t'"
proof (cases "newValue_for nested k k'")
  case None
  then show ?thesis using assms by simp
next
  case (Some new)
  show ?thesis
  proof (cases "baseSet new (k' # ks) v")
    case (Inl e)
    then show ?thesis using assms Some by simp
  next
    case (Inr sub)
    then have "assignValue nested k sub = Inr t'" using assms Some by simp
    then show ?thesis using that[OF Some Inr] by simp
  qed
qed

lemma baseSet_isObject:
  "baseSet t p v = Inr t' \<Longrightarrow> isObject t \<Longrightarrow> isObject t'"
proof (induction t p v arbitrary: t' rule: baseSet.induct)
  case (1 nested v)
  then show ?case by simp
next
  case (2 nested k v)
  then show ?case using entry_assignValue(2) by (auto split: if_splits)
next
  case (3 nested k k' ks v)
  show ?case
  proof (cases "unsafe_key k")
    case True
    then show ?thesis using "3.prems" by simp
  next
    case False
    from baseSet_step[OF "3.prems"(1) False] obtain sub where "assignValue nested k sub = Inr t'"
      by blast
    then show ?thesis using entry_assignValue(2) "3.prems"(2) by blast
  qed
qed

lemma baseSet_occupies:
  "baseSet t p v = Inr t' \<Longrightarrow> isObject t \<Longrightarrow> p \<noteq> [] \<Longrightarrow> \<forall>k\<in>set p. \<not> unsafe_key k \<Longrightarrow>
   at_path t' p = Some v"
proof (induction t p v arbitrary: t' rule: baseSet.induct)
  case (1 nested v)
  then show ?case by simp
next
  case (2 nested k v)
  then have "assignValue nested k v = Inr t'" by simp
  from entry_assignValue(1)[OF this "2.prems"(2), of k] show ?case by simp
next
  case (3 nested k k' ks v)
  have ns: "\<not> unsafe_key k" using "3.prems"(4) by simp
  from baseSet_step[OF "3.prems"(1) ns] obtain new sub where
    n: "newValue_for nested k k' = Some new"
    and s: "baseSet new (k' # ks) v = Inr sub" and a: "assignValue nested k sub = Inr t'"
    by blast
  have "at_path sub (k' # ks) = Some v"
    using "3.IH"[OF ns n s newValue_for_Some(1)[OF n]] "3.prems"(4) by simp
  moreover have "entry t' k = Some sub"
    using entry_assignValue(1)[OF a "3.prems"(2), of k] by simp
  ultimately show ?case by simp
qed

text \<open>
  A path \<open>q\<close> is untouched by a placement at \<open>p\<close> when neither is a prefix of the other.
\<close>

lemma baseSet_frame:
  "baseSet t p v = Inr t' \<Longrightarrow> isObject t \<Longrightarrow> \<not> prefix p q \<Longrightarrow> \<not> prefix q p \<Longrightarrow>
   at_path t' q = at_path t q"
proof (induction t p v arbitrary: t' q rule: baseSet.induct)
  case (1 nested v)
  then show ?case by simp
next
  case (2 nested k v)
  show ?case
  proof (cases "unsafe_key k")
    case True
    then show ?thesis using "2.prems" by simp
  next
    case False
    then have a: "assignValue nested k v = Inr t'" using "2.prems"(1) by simp
    obtain k2 qs where q: "q = k2 # qs" using "2.prems"(4) by (cases q) auto
    have "k2 \<noteq> k" using "2.prems"(3) q by auto
    then have "entry t' k2 = entry nested k2"
      using entry_assignValue(1)[OF a "2.prems"(2), of k2] by simp
    then show ?thesis using q by simp
  qed
next
  case (3 nested k k' ks v)
  show ?case
  proof (cases "unsafe_key k")
    case True
    then show ?thesis using "3.prems" by simp
  next
    case False
    from baseSet_step[OF "3.prems"(1) False] obtain new sub where
      n: "newValue_for nested k k' = Some new"
      and s: "baseSet new (k' # ks) v = Inr sub" and a: "assignValue nested k sub = Inr t'"
      by blast
    obtain k2 qs where q: "q = k2 # qs" using "3.prems"(4) by (cases q) auto
    show ?thesis
    proof (cases "k2 = k")
      case False
      then have "entry t' k2 = entry nested k2"
        using entry_assignValue(1)[OF a "3.prems"(2), of k2] by simp
      then show ?thesis using q by simp
    next
      case True
      have np: "\<not> prefix (k' # ks) qs" "\<not> prefix qs (k' # ks)"
        using "3.prems"(3,4) q True by auto
      then have qne: "qs \<noteq> []" by auto
      have "at_path sub qs = at_path new qs"
        using "3.IH"[OF False n s newValue_for_Some(1)[OF n] np] .
      also have "\<dots> = (case entry nested k of None \<Rightarrow> None | Some w \<Rightarrow> at_path w qs)"
        using newValue_for_Some(2)[OF n qne] .
      finally have "at_path sub qs = at_path nested (k # qs)" by simp
      moreover have "entry t' k = Some sub"
        using entry_assignValue(1)[OF a "3.prems"(2), of k] by simp
      ultimately show ?thesis using q True by simp
    qed
  qed
qed

text \<open>\<open>baseSet\<close> returns when no key of the path is the name of a built-in property.\<close>

lemma newValue_for_ok:
  "isObject nested \<Longrightarrow> k \<notin> set builtin_keys \<Longrightarrow> \<exists>new. newValue_for nested k k' = Some new"
  by (cases nested)
     (auto simp: newValue_for_def read_prop_def builtin_keys_def isObject_def split: option.splits)

lemma assignValue_ok:
  "isObject nested \<Longrightarrow> k \<notin> set builtin_keys \<Longrightarrow> \<exists>t'. assignValue nested k v = Inr t'"
  by (cases nested)
     (auto simp: assignValue_def builtin_keys_def array_prototype_keys_def isObject_def)

lemma baseSet_returns:
  "isObject t \<Longrightarrow> \<forall>k\<in>set p. k \<notin> set builtin_keys \<Longrightarrow> \<exists>t'. baseSet t p v = Inr t'"
proof (induction t p v rule: baseSet.induct)
  case (1 nested v)
  then show ?case by simp
next
  case (2 nested k v)
  then show ?case using assignValue_ok[of nested k v] by simp
next
  case (3 nested k k' ks v)
  show ?case
  proof (cases "unsafe_key k")
    case True
    then show ?thesis by simp
  next
    case False
    have kb: "k \<notin> set builtin_keys" using "3.prems"(2) by simp
    from newValue_for_ok[OF "3.prems"(1) kb, of k'] obtain new where
      n: "newValue_for nested k k' = Some new" by blast
    have "\<exists>sub. baseSet new (k' # ks) v = Inr sub"
      using "3.IH"[OF False n newValue_for_Some(1)[OF n]] "3.prems"(2) by simp
    then obtain sub where s: "baseSet new (k' # ks) v = Inr sub" by blast
    from assignValue_ok[OF "3.prems"(1) kb, of sub] obtain t' where
      "assignValue nested k sub = Inr t'" by blast
    then show ?thesis using False n s by simp
  qed
qed

lemma fold_merge_step_Inl: "fold (merge_step kp) xs (Inl e) = Inl e"
  by (induction xs) (simp_all add: merge_step_def)

lemma merge_step_Inr:
  "merge_step kp ob (Inr t) = Inr t' \<longleftrightarrow>
     (\<exists>f. get ob (PStr kp) = Some (JStr f) \<and> baseSet t (propPath_of f) (of_json ob) = Inr t')"
  by (auto simp: merge_step_def split: option.splits json.splits)

lemma fold_merge_Cons:
  assumes "fold (merge_step kp) (ob # xs) (Inr t) = Inr t'"
  obtains f t1 where "get ob (PStr kp) = Some (JStr f)"
    and "baseSet t (propPath_of f) (of_json ob) = Inr t1"
    and "fold (merge_step kp) xs (Inr t1) = Inr t'"
proof (cases "merge_step kp ob (Inr t)")
  case (Inl e)
  then show ?thesis using assms by (simp add: fold_merge_step_Inl)
next
  case (Inr t1)
  then obtain f where "get ob (PStr kp) = Some (JStr f)" "baseSet t (propPath_of f) (of_json ob) = Inr t1"
    unfolding merge_step_Inr by blast
  moreover have "fold (merge_step kp) xs (Inr t1) = Inr t'" using assms Inr by simp
  ultimately show ?thesis using that by blast
qed

lemma fold_merge_isObject:
  "fold (merge_step kp) xs (Inr t) = Inr t' \<Longrightarrow> isObject t \<Longrightarrow> isObject t'"
proof (induction xs arbitrary: t)
  case Nil
  then show ?case by simp
next
  case (Cons ob xs)
  from fold_merge_Cons[OF Cons.prems(1)] obtain f t1 where
    s: "baseSet t (propPath_of f) (of_json ob) = Inr t1"
    and r: "fold (merge_step kp) xs (Inr t1) = Inr t'"
    by blast
  show ?case using Cons.IH[OF r baseSet_isObject[OF s Cons.prems(2)]] .
qed

lemma fold_merge_frame:
  assumes "fold (merge_step kp) xs (Inr t) = Inr t'" and "isObject t"
    and "\<forall>ob\<in>set xs. \<forall>f. get ob (PStr kp) = Some (JStr f) \<longrightarrow> apart (propPath_of f) q"
  shows "at_path t' q = at_path t q"
  using assms
proof (induction xs arbitrary: t)
  case Nil
  then show ?case by simp
next
  case (Cons ob xs)
  from fold_merge_Cons[OF Cons.prems(1)] obtain f t1 where
    g: "get ob (PStr kp) = Some (JStr f)"
    and s: "baseSet t (propPath_of f) (of_json ob) = Inr t1"
    and r: "fold (merge_step kp) xs (Inr t1) = Inr t'"
    by blast
  have "apart (propPath_of f) q" using Cons.prems(3) g by auto
  then have "at_path t1 q = at_path t q"
    using baseSet_frame[OF s Cons.prems(2)] s by (auto simp: apart_def)
  moreover have "at_path t' q = at_path t1 q"
    using Cons.IH[OF r baseSet_isObject[OF s Cons.prems(2)]] Cons.prems(3) by simp
  ultimately show ?case by simp
qed

lemma fold_merge_returns:
  assumes "isObject t"
    and "\<forall>ob\<in>set xs. \<exists>f. get ob (PStr kp) = Some (JStr f) \<and>
           (\<forall>k\<in>set (propPath_of f). k \<notin> set builtin_keys)"
  shows "\<exists>t'. fold (merge_step kp) xs (Inr t) = Inr t'"
  using assms
proof (induction xs arbitrary: t)
  case Nil
  then show ?case by simp
next
  case (Cons ob xs)
  from Cons.prems(2) obtain f where
    g: "get ob (PStr kp) = Some (JStr f)" and b: "\<forall>k\<in>set (propPath_of f). k \<notin> set builtin_keys"
    by auto
  from baseSet_returns[OF Cons.prems(1) b, of "of_json ob"] obtain t1 where
    s: "baseSet t (propPath_of f) (of_json ob) = Inr t1" by blast
  have m: "merge_step kp ob (Inr t) = Inr t1" unfolding merge_step_Inr using g s by blast
  have "\<exists>t'. fold (merge_step kp) xs (Inr t1) = Inr t'"
    using Cons.IH[OF baseSet_isObject[OF s Cons.prems(1)]] Cons.prems(2) by simp
  then show ?case using m by simp
qed

lemma fold_merge_prefix:
  assumes "fold (merge_step kp) (pre @ post) (Inr t) = Inr t'"
  obtains t0 where "fold (merge_step kp) pre (Inr t) = Inr t0"
    and "fold (merge_step kp) post (Inr t0) = Inr t'"
proof (cases "fold (merge_step kp) pre (Inr t)")
  case (Inl e)
  then show ?thesis using assms by (simp add: fold_merge_step_Inl)
next
  case (Inr t0)
  then show ?thesis using assms that by simp
qed

lemma fold_merge_occupies:
  assumes run: "fold (merge_step kp) (pre @ ob # post) (Inr t) = Inr t'" and obj: "isObject t"
    and g: "get ob (PStr kp) = Some (JStr f)"
    and ne: "propPath_of f \<noteq> []" and safe: "\<forall>k\<in>set (propPath_of f). \<not> unsafe_key k"
    and later: "\<forall>ob'\<in>set post. \<forall>f'. get ob' (PStr kp) = Some (JStr f') \<longrightarrow>
           apart (propPath_of f') (propPath_of f)"
  shows "at_path t' (propPath_of f) = Some (of_json ob)"
proof -
  from fold_merge_prefix[OF run] obtain t0 where
    p: "fold (merge_step kp) pre (Inr t) = Inr t0"
    and q: "fold (merge_step kp) (ob # post) (Inr t0) = Inr t'"
    by blast
  have o0: "isObject t0" using fold_merge_isObject[OF p obj] .
  from fold_merge_Cons[OF q] g obtain t1 where
    s: "baseSet t0 (propPath_of f) (of_json ob) = Inr t1"
    and r: "fold (merge_step kp) post (Inr t1) = Inr t'"
    by auto
  have "at_path t1 (propPath_of f) = Some (of_json ob)"
    using baseSet_occupies[OF s o0 ne safe] .
  moreover have "at_path t' (propPath_of f) = at_path t1 (propPath_of f)"
    using fold_merge_frame[OF r baseSet_isObject[OF s o0] later] .
  ultimately show ?thesis by simp
qed

lemma isObject_merge_seed: "isObject (merge_seed src)"
  by (simp add: merge_seed_def isObject_def)

text \<open>
  Claim C9, as the code has it. \<open>mergeDataObjects\<close> returns, and the merged object has
  the seeded \<open>__metadata\<close>, that is \<open>{id: "<source>:data", source}\<close>, when every object
  has a string as its file path, no segment of a key path is the name of a built-in
  property, and no key path starts with \<open>__metadata\<close>. Numeric segments are
  among the segments allowed: for \<open>blog/2021/post.yaml\<close> the tree holds an array of
  length 2022 under \<open>blog\<close>. Whenever \<open>mergeDataObjects\<close> returns and no key path starts
  with \<open>__metadata\<close>, the seeded \<open>__metadata\<close> is there.
\<close>

theorem merged_metadata_seed:
  "((\<forall>ob\<in>set objects. \<exists>f. get ob (PStr kp) = Some (JStr f) \<and>
        (\<forall>k\<in>set (propPath_of f). k \<notin> set builtin_keys) \<and>
        ''__metadata'' \<notin> set (take 1 (propPath_of f))) \<longrightarrow>
     (\<exists>merged. mergeDataObjects objects kp src = Inr merged \<and>
        entry merged ''__metadata'' =
          Some (TObj [(''id'', TStr (src @ '':data'')), (''source'', TStr src)])))
   \<and> (\<forall>merged. mergeDataObjects objects kp src = Inr merged \<and>
        (\<forall>ob\<in>set objects. \<forall>f. get ob (PStr kp) = Some (JStr f) \<longrightarrow>
           ''__metadata'' \<notin> set (take 1 (propPath_of f))) \<longrightarrow>
        entry merged ''__metadata'' =
          Some (TObj [(''id'', TStr (src @ '':data'')), (''source'', TStr src)]))
   \<and> mergeDataObjects [ex_year_post, ex_post_1_yaml, ex_post_1]
        ''__metadata.relSourcePath'' ''src'' =
       Inr (TObj [(''__metadata'', TObj [(''id'', TStr ''src:data''), (''source'', TStr ''src'')]),
                  (''blog'', TArr 2022 [(''2021'', TObj [(''post'', of_json ex_year_post)])]),
                  (''posts'', TArr 2 [(''1'', of_json ex_post_1_yaml)])])"
proof (intro conjI allI impI)
  have frame: "entry merged ''__metadata'' =
          Some (TObj [(''id'', TStr (src @ '':data'')), (''source'', TStr src)])"
    if run: "mergeDataObjects objects kp src = Inr merged"
      and nm: "\<forall>ob\<in>set objects. \<forall>f. get ob (PStr kp) = Some (JStr f) \<longrightarrow>
           ''__metadata'' \<notin> set (take 1 (propPath_of f))"
    for merged
  proof -
    have f: "fold (merge_step kp) (sortBy_path objects kp) (Inr (merge_seed src)) = Inr merged"
      using run by (simp add: mergeDataObjects_def)
    have "\<forall>ob\<in>set (sortBy_path objects kp). \<forall>f. get ob (PStr kp) = Some (JStr f) \<longrightarrow>
            apart (propPath_of f) [''__metadata'']"
    proof (intro ballI allI impI)
      fix ob f assume "ob \<in> set (sortBy_path objects kp)" "get ob (PStr kp) = Some (JStr f)"
      then have "''__metadata'' \<notin> set (take 1 (propPath_of f))"
        using nm by (simp add: sortBy_path_def)
      then show "apart (propPath_of f) [''__metadata'']"
        by (cases "propPath_of f") (auto simp: apart_def prefix_Cons)
    qed
    from fold_merge_frame[OF f isObject_merge_seed this]
    have "at_path merged [''__metadata''] = at_path (merge_seed src) [''__metadata'']" .
    then show ?thesis by (simp add: merge_seed_def entry_def split: option.splits)
  qed
  {
    fix merged
    assume "mergeDataObjects objects kp src = Inr merged \<and>
        (\<forall>ob\<in>set objects. \<forall>f. get ob (PStr kp) = Some (JStr f) \<longrightarrow>
           ''__metadata'' \<notin> set (take 1 (propPath_of f)))"
    then show "entry merged ''__metadata'' =
          Some (TObj [(''id'', TStr (src @ '':data'')), (''source'', TStr src)])"
      using frame by blast
  }
  {
    assume h: "\<forall>ob\<in>set objects. \<exists>f. get ob (PStr kp) = Some (JStr f) \<and>
        (\<forall>k\<in>set (propPath_of f). k \<notin> set builtin_keys) \<and>
        ''__metadata'' \<notin> set (take 1 (propPath_of f))"
    then have "\<forall>ob\<in>set (sortBy_path objects kp). \<exists>f. get ob (PStr kp) = Some (JStr f) \<and>
        (\<forall>k\<in>set (propPath_of f). k \<notin> set builtin_keys)"
      by (auto simp: sortBy_path_def)
    from fold_merge_returns[OF isObject_merge_seed this] obtain merged where
      run: "mergeDataObjects objects kp src = Inr merged"
      unfolding mergeDataObjects_def by blast
    have "\<forall>ob\<in>set objects. \<forall>f. get ob (PStr kp) = Some (JStr f) \<longrightarrow>
           ''__metadata'' \<notin> set (take 1 (propPath_of f))"
      using h by fastforce
    from frame[OF run this] run
    show "\<exists>merged. mergeDataObjects objects kp src = Inr merged \<and>
        entry merged ''__metadata'' =
          Some (TObj [(''id'', TStr (src @ '':data'')), (''source'', TStr src)])"
      by blast
  }
  show "mergeDataObjects [ex_year_post, ex_post_1_yaml, ex_post_1]
        ''__metadata.relSourcePath'' ''src'' =
       Inr (TObj [(''__metadata'', TObj [(''id'', TStr ''src:data''), (''source'', TStr ''src'')]),
                  (''blog'', TArr 2022 [(''2021'', TObj [(''post'', of_json ex_year_post)])]),
                  (''posts'', TArr 2 [(''1'', of_json ex_post_1_yaml)])])"
    by code_simp
qed

theorem merged_metadata_seed_witness:
  "\<exists>merged. mergeDataObjects [ex_year_post, ex_alice_md] ''__metadata.relSourcePath''
       ''sourcebit-source-filesystem'' = Inr merged
     \<and> entry merged ''__metadata'' =
         Some (TObj [(''id'', TStr ''sourcebit-source-filesystem:data''),
                     (''source'', TStr ''sourcebit-source-filesystem'')])"
proof -
  let ?kp = "''__metadata.relSourcePath''"
  have a: "get ex_year_post (PStr ?kp) = Some (JStr ''blog/2021/post.yaml'')" by code_simp
  have b: "get ex_alice_md (PStr ?kp) = Some (JStr ''team/alice.md'')" by code_simp
  have pa: "propPath_of ''blog/2021/post.yaml'' = [''blog'', ''2021'', ''post'']" by code_simp
  have pb: "propPath_of ''team/alice.md'' = [''team'', ''alice'']" by code_simp
  have ka: "\<forall>k\<in>set [''blog'', ''2021'', ''post'']. k \<notin> set builtin_keys" by code_simp
  have kb: "\<forall>k\<in>set [''team'', ''alice'']. k \<notin> set builtin_keys" by code_simp
  have h: "\<forall>ob\<in>set [ex_year_post, ex_alice_md]. \<exists>f. get ob (PStr ?kp) = Some (JStr f) \<and>
        (\<forall>k\<in>set (propPath_of f). k \<notin> set builtin_keys) \<and>
        ''__metadata'' \<notin> set (take 1 (propPath_of f))"
    using a b pa pb ka kb by auto
  from merged_metadata_seed[of "[ex_year_post, ex_alice_md]" ?kp "''sourcebit-source-filesystem''",
      THEN conjunct1] h
  show ?thesis by simp
qed

text \<open>
  The claim as stated holds for arbitrary file paths. A data file \<open>__metadata.yaml\<close> has
  the key path \<open>__metadata\<close>, and \<open>_.set\<close> puts the object of the file in the place of
  the seeded mapping.
\<close>

theorem merged_metadata_replaced_counterexample:
  "mergeDataObjects [ex_reserved] ''__metadata.relSourcePath''
       ''sourcebit-source-filesystem'' = Inr (TObj [(''__metadata'', of_json ex_reserved)])
   \<and> entry (TObj [(''__metadata'', of_json ex_reserved)]) ''__metadata'' \<noteq>
       Some (TObj [(''id'', TStr ''sourcebit-source-filesystem:data''),
                   (''source'', TStr ''sourcebit-source-filesystem'')])
   \<and> at_path (TObj [(''__metadata'', of_json ex_reserved)]) [''__metadata'', ''id''] = None"
  by code_simp

lemma propPath_of_name:
  assumes "\<forall>s\<in>set segs. CHR ''/'' \<notin> set s" and "b \<noteq> []" and "CHR ''/'' \<notin> set b"
    and "pp_name (path_parse (join_with ''/'' (segs @ [b]))) = n" and "n \<noteq> []"
  shows "propPath_of (join_with ''/'' (segs @ [b])) = filter (\<lambda>s. s \<noteq> []) segs @ [n]"
proof -
  have "compact (split_on CHR ''/'' (pp_dir (path_parse (join_with ''/'' (segs @ [b])))) @ [n]) =
        compact (split_on CHR ''/'' (pp_dir (path_parse (join_with ''/'' (segs @ [b]))))) @ [n]"
    using assms(5) by (simp add: compact_def)
  then show ?thesis
    unfolding propPath_of_def Let_def assms(4) path_parse_join(2)[OF assms(1,2,3)] .
qed

lemma propPath_of_ext:
  assumes "\<forall>s\<in>set segs. CHR ''/'' \<notin> set s" and "n \<noteq> []" and "CHR ''/'' \<notin> set n"
    and "CHR ''/'' \<notin> set e" and "CHR ''.'' \<notin> set e" and "n = ''.'' \<and> e = [] \<longrightarrow> segs = [[]]"
  shows "propPath_of (join_with ''/'' (segs @ [n @ CHR ''.'' # e])) =
           filter (\<lambda>s. s \<noteq> []) segs @ [n]"
proof -
  have b: "n @ CHR ''.'' # e \<noteq> []" "CHR ''/'' \<notin> set (n @ CHR ''.'' # e)" using assms by auto
  show ?thesis
    by (rule propPath_of_name[OF assms(1) b pp_name_ext[OF assms] assms(2)])
qed

lemma propPath_of_plain:
  assumes "\<forall>s\<in>set segs. CHR ''/'' \<notin> set s" and "b \<noteq> []" and "CHR ''/'' \<notin> set b"
    and "CHR ''.'' \<notin> set (tl b) \<or> (b = ''..'' \<and> segs \<noteq> [[]])"
  shows "propPath_of (join_with ''/'' (segs @ [b])) = filter (\<lambda>s. s \<noteq> []) segs @ [b]"
  by (rule propPath_of_name[OF assms(1,2,3) pp_name_plain[OF assms] assms(2)])

lemma sortBy_path_perm:
  assumes "mset objects' = mset objects"
    and "inj_on (\<lambda>ob. file_key (get ob (PStr kp))) (set objects)"
  shows "sortBy_path objects' kp = sortBy_path objects kp"
proof -
  let ?f = "\<lambda>ob. file_key (get ob (PStr kp))"
  have s: "set objects' = set objects" using assms(1) by (rule mset_eq_setD)
  have "sort_key ?f objects' = sort_key ?f objects"
  proof (rule sort_key_inj_key_eq)
    show "mset objects' = mset (sort_key ?f objects)" using assms(1) by simp
    show "inj_on ?f (set objects')" using assms(2) s by simp
    show "sorted (map ?f (sort_key ?f objects))" by (rule sorted_sort_key)
  qed
  then show ?thesis by (simp add: sortBy_path_def)
qed

text \<open>A list sorted by a key is its part below a value, its part at it and its part above.\<close>

lemma sorted_three_parts:
  fixes f :: "'a \<Rightarrow> 'b::linorder"
  shows "sorted (map f xs) \<Longrightarrow>
     xs = filter (\<lambda>x. f x < c) xs @ filter (\<lambda>x. f x = c) xs @ filter (\<lambda>x. c < f x) xs"
proof (induction xs)
  case Nil
  then show ?case by simp
next
  case (Cons x xs)
  then have le: "\<forall>y\<in>set xs. f x \<le> f y" and s: "sorted (map f xs)" by auto
  note IH = Cons.IH[OF s]
  consider "f x < c" | "f x = c" | "c < f x" by (rule linorder_cases)
  then show ?case
  proof cases
    case 1
    then show ?thesis using IH by auto
  next
    case 2
    then have "filter (\<lambda>x. f x < c) xs = []" using le by (auto simp: filter_empty_conv)
    then show ?thesis using 2 IH by auto
  next
    case 3
    then have "filter (\<lambda>x. f x < c) xs = []" "filter (\<lambda>x. f x = c) xs = []"
      using le by (auto simp: filter_empty_conv)
    then show ?thesis using 3 IH by auto
  qed
qed

text \<open>
  Where an object stands after \<open>_.sortBy\<close>: behind it come only the objects with a
  greater file path and those with the same file path that follow it in the input.
\<close>

lemma sortBy_path_split:
  assumes "objects = l1 @ b # l3"
  obtains pre post where "sortBy_path objects kp = pre @ b # post"
    and "set post \<subseteq> {ob \<in> set l3. file_key (get ob (PStr kp)) = file_key (get b (PStr kp))} \<union>
                     {ob \<in> set objects. file_key (get b (PStr kp)) < file_key (get ob (PStr kp))}"
proof -
  let ?f = "\<lambda>ob. file_key (get ob (PStr kp))"
  let ?c = "?f b"
  let ?S = "sortBy_path objects kp"
  have sorted: "sorted (map ?f ?S)" unfolding sortBy_path_def by (rule sorted_sort_key)
  have mid: "filter (\<lambda>x. ?f x = ?c) ?S =
               filter (\<lambda>x. ?f x = ?c) l1 @ b # filter (\<lambda>x. ?f x = ?c) l3"
    unfolding sortBy_path_def sort_key_stable assms by simp
  have S: "?S = (filter (\<lambda>x. ?f x < ?c) ?S @ filter (\<lambda>x. ?f x = ?c) l1) @ b #
                (filter (\<lambda>x. ?f x = ?c) l3 @ filter (\<lambda>x. ?c < ?f x) ?S)"
    using sorted_three_parts[OF sorted, of ?c] unfolding mid by simp
  have "set ?S = set objects" by (simp add: sortBy_path_def)
  then have "set (filter (\<lambda>x. ?f x = ?c) l3 @ filter (\<lambda>x. ?c < ?f x) ?S) \<subseteq>
        {ob \<in> set l3. ?f ob = ?c} \<union> {ob \<in> set objects. ?c < ?f ob}"
    by auto
  then show ?thesis using that[OF S] by blast
qed

lemma mergeDataObjects_occupies:
  assumes dec: "objects = l1 @ b # l3"
    and g: "get b (PStr kp) = Some (JStr f)"
    and ne: "propPath_of f \<noteq> []" and safe: "\<forall>k\<in>set (propPath_of f). \<not> unsafe_key k"
    and ok: "\<forall>ob\<in>set objects. \<exists>f'. get ob (PStr kp) = Some (JStr f') \<and>
                (\<forall>k\<in>set (propPath_of f'). k \<notin> set builtin_keys)"
    and before: "\<forall>ob\<in>set l1. \<forall>f'. get ob (PStr kp) = Some (JStr f') \<longrightarrow>
                f' \<le> f \<or> apart (propPath_of f') (propPath_of f)"
    and after: "\<forall>ob\<in>set l3. \<forall>f'. get ob (PStr kp) = Some (JStr f') \<longrightarrow>
                f' < f \<or> apart (propPath_of f') (propPath_of f)"
  shows "\<exists>merged. mergeDataObjects objects kp src = Inr merged \<and>
           at_path merged (propPath_of f) = Some (of_json b)"
proof -
  let ?key = "\<lambda>ob. file_key (get ob (PStr kp))"
  have kb: "?key b = f" using g by (simp add: file_key_def)
  from sortBy_path_split[OF dec, of kp] obtain pre post where
    S: "sortBy_path objects kp = pre @ b # post"
    and P: "set post \<subseteq> {ob \<in> set l3. ?key ob = ?key b} \<union> {ob \<in> set objects. ?key b < ?key ob}"
    by blast
  have "\<forall>ob\<in>set (sortBy_path objects kp). \<exists>f'. get ob (PStr kp) = Some (JStr f') \<and>
          (\<forall>k\<in>set (propPath_of f'). k \<notin> set builtin_keys)"
    using ok by (simp add: sortBy_path_def)
  from fold_merge_returns[OF isObject_merge_seed this] obtain merged where
    run: "mergeDataObjects objects kp src = Inr merged"
    unfolding mergeDataObjects_def by blast
  have later: "\<forall>ob'\<in>set post. \<forall>f'. get ob' (PStr kp) = Some (JStr f') \<longrightarrow>
                 apart (propPath_of f') (propPath_of f)"
  proof (intro ballI allI impI)
    fix ob' f' assume m: "ob' \<in> set post" and g': "get ob' (PStr kp) = Some (JStr f')"
    have k': "?key ob' = f'" using g' by (simp add: file_key_def)
    from m P have "(ob' \<in> set l3 \<and> f' = f) \<or> (ob' \<in> set objects \<and> f < f')"
      unfolding kb using k' by auto
    then show "apart (propPath_of f') (propPath_of f)"
    proof
      assume e: "ob' \<in> set l3 \<and> f' = f"
      with after g' have "f' < f \<or> apart (propPath_of f') (propPath_of f)" by blast
      moreover have "\<not> f' < f" using e by simp
      ultimately show ?thesis by blast
    next
      assume a: "ob' \<in> set objects \<and> f < f'"
      then have nle: "\<not> f' \<le> f" and nlt: "\<not> f' < f" by auto
      from a have "ob' \<in> set l1 \<or> ob' = b \<or> ob' \<in> set l3" using dec by auto
      then show ?thesis
      proof (elim disjE)
        assume "ob' \<in> set l1"
        with before g' have "f' \<le> f \<or> apart (propPath_of f') (propPath_of f)" by blast
        with nle show ?thesis by blast
      next
        assume "ob' = b"
        then have "f' = f" using g g' by simp
        then show ?thesis using a by simp
      next
        assume "ob' \<in> set l3"
        with after g' have "f' < f \<or> apart (propPath_of f') (propPath_of f)" by blast
        with nlt show ?thesis by blast
      qed
    qed
  qed
  have "fold (merge_step kp) (pre @ b # post) (Inr (merge_seed src)) = Inr merged"
    using run unfolding mergeDataObjects_def S .
  from fold_merge_occupies[OF this isObject_merge_seed g ne safe later] run
  show ?thesis by blast
qed

text \<open>
  Claim C4, as the code has it. \<open>mergeDataObjects\<close> sorts the objects by their file path
  with a stable sort: the result is sorted, a permutation of the input, and objects with
  the same file path keep their order. The key path of a file \<open>segs/name.ext\<close> is the
  non-empty segments of \<open>segs\<close> followed by \<open>name\<close> (by the whole last segment when it has
  no extension), and \<open>index\<close> is kept as a segment.
  Setting a value at a key path whose keys are not built-in property names returns; it
  makes the tree hold the value at the path, unless the path is empty or has one of the
  keys \<open>__proto__\<close>, \<open>constructor\<close>, \<open>prototype\<close>, and it leaves the value at every path
  that neither begins with that path nor begins it. So, when every object has a string as
  its file path and key paths without built-in property names, \<open>mergeDataObjects\<close>
  returns, and an object is at its key path in the result when every other object is
  sorted before it (a smaller file path, or the same file path and an earlier place in
  the input) or has a key path apart from its own. The result does not depend on the
  order of the input when the file paths differ. For \<open>team/alice.md\<close> and
  \<open>team/alice.yaml\<close> the object of the latter is at \<open>team.alice\<close> in either input order.
\<close>

theorem mergeDataObjects_sorted_fold:
  "sorted (map (\<lambda>ob. file_key (get ob (PStr kp))) (sortBy_path objects kp))
   \<and> mset (sortBy_path objects kp) = mset objects
   \<and> (\<forall>f. filter (\<lambda>ob. file_key (get ob (PStr kp)) = f) (sortBy_path objects kp) =
           filter (\<lambda>ob. file_key (get ob (PStr kp)) = f) objects)
   \<and> (\<forall>segs n e.
        (\<forall>s\<in>set segs. CHR ''/'' \<notin> set s) \<and> n \<noteq> [] \<and> CHR ''/'' \<notin> set n \<and>
        CHR ''/'' \<notin> set e \<and> CHR ''.'' \<notin> set e \<and> (n = ''.'' \<and> e = [] \<longrightarrow> segs = [[]]) \<longrightarrow>
        propPath_of (join_with ''/'' (segs @ [n @ CHR ''.'' # e])) =
          filter (\<lambda>s. s \<noteq> []) segs @ [n])
   \<and> (\<forall>segs b.
        (\<forall>s\<in>set segs. CHR ''/'' \<notin> set s) \<and> b \<noteq> [] \<and> CHR ''/'' \<notin> set b \<and>
        (CHR ''.'' \<notin> set (tl b) \<or> (b = ''..'' \<and> segs \<noteq> [[]])) \<longrightarrow>
        propPath_of (join_with ''/'' (segs @ [b])) = filter (\<lambda>s. s \<noteq> []) segs @ [b])
   \<and> propPath_of ''blog/index.md'' = [''blog'', ''index'']
   \<and> (\<forall>t p v. isObject t \<and> (\<forall>k\<in>set p. k \<notin> set builtin_keys) \<longrightarrow>
        (\<exists>t'. baseSet t p v = Inr t' \<and> isObject t' \<and>
           (p \<noteq> [] \<and> (\<forall>k\<in>set p. \<not> unsafe_key k) \<longrightarrow> at_path t' p = Some v) \<and>
           (\<forall>q. apart p q \<longrightarrow> at_path t' q = at_path t q)))
   \<and> (\<forall>l1 b l3 f.
        objects = l1 @ b # l3 \<and> get b (PStr kp) = Some (JStr f) \<and>
        propPath_of f \<noteq> [] \<and> (\<forall>k\<in>set (propPath_of f). \<not> unsafe_key k) \<and>
        (\<forall>ob\<in>set objects. \<exists>f'. get ob (PStr kp) = Some (JStr f') \<and>
           (\<forall>k\<in>set (propPath_of f'). k \<notin> set builtin_keys)) \<and>
        (\<forall>ob\<in>set l1. \<forall>f'. get ob (PStr kp) = Some (JStr f') \<longrightarrow>
           f' \<le> f \<or> apart (propPath_of f') (propPath_of f)) \<and>
        (\<forall>ob\<in>set l3. \<forall>f'. get ob (PStr kp) = Some (JStr f') \<longrightarrow>
           f' < f \<or> apart (propPath_of f') (propPath_of f)) \<longrightarrow>
        (\<exists>merged. mergeDataObjects objects kp src = Inr merged \<and>
           at_path merged (propPath_of f) = Some (of_json b)))
   \<and> (\<forall>objects'. mset objects' = mset objects \<and>
        inj_on (\<lambda>ob. file_key (get ob (PStr kp))) (set objects) \<longrightarrow>
        mergeDataObjects objects' kp src = mergeDataObjects objects kp src)
   \<and> mergeDataObjects [ex_alice_md, ex_alice_yaml] ''__metadata.relSourcePath'' ''src'' =
       Inr (TObj [(''__metadata'', TObj [(''id'', TStr ''src:data''), (''source'', TStr ''src'')]),
                  (''team'', TObj [(''alice'', of_json ex_alice_yaml)])])
   \<and> mergeDataObjects [ex_alice_yaml, ex_alice_md] ''__metadata.relSourcePath'' ''src'' =
       Inr (TObj [(''__metadata'', TObj [(''id'', TStr ''src:data''), (''source'', TStr ''src'')]),
                  (''team'', TObj [(''alice'', of_json ex_alice_yaml)])])"
proof (intro conjI allI impI)
  show "sorted (map (\<lambda>ob. file_key (get ob (PStr kp))) (sortBy_path objects kp))"
    unfolding sortBy_path_def by (rule sorted_sort_key)
next
  show "mset (sortBy_path objects kp) = mset objects"
    by (simp add: sortBy_path_def)
next
  fix f
  show "filter (\<lambda>ob. file_key (get ob (PStr kp)) = f) (sortBy_path objects kp) =
           filter (\<lambda>ob. file_key (get ob (PStr kp)) = f) objects"
    unfolding sortBy_path_def by (rule sort_key_stable)
next
  fix segs n e
  assume "(\<forall>s\<in>set segs. CHR ''/'' \<notin> set s) \<and> n \<noteq> [] \<and> CHR ''/'' \<notin> set n \<and>
        CHR ''/'' \<notin> set e \<and> CHR ''.'' \<notin> set e \<and> (n = ''.'' \<and> e = [] \<longrightarrow> segs = [[]])"
  then show "propPath_of (join_with ''/'' (segs @ [n @ CHR ''.'' # e])) =
          filter (\<lambda>s. s \<noteq> []) segs @ [n]"
    using propPath_of_ext[of segs n e] by blast
next
  fix segs b
  assume "(\<forall>s\<in>set segs. CHR ''/'' \<notin> set s) \<and> b \<noteq> [] \<and> CHR ''/'' \<notin> set b \<and>
        (CHR ''.'' \<notin> set (tl b) \<or> (b = ''..'' \<and> segs \<noteq> [[]]))"
  then show "propPath_of (join_with ''/'' (segs @ [b])) = filter (\<lambda>s. s \<noteq> []) segs @ [b]"
    using propPath_of_plain[of segs b] by blast
next
  show "propPath_of ''blog/index.md'' = [''blog'', ''index'']" by code_simp
next
  fix t p v
  assume h: "isObject t \<and> (\<forall>k\<in>set p. k \<notin> set builtin_keys)"
  then obtain t' where s: "baseSet t p v = Inr t'"
    using baseSet_returns[of t p v] by blast
  have o: "isObject t" using h by simp
  have 1: "isObject t'" using baseSet_isObject[OF s o] .
  have 2: "p \<noteq> [] \<and> (\<forall>k\<in>set p. \<not> unsafe_key k) \<longrightarrow> at_path t' p = Some v"
    using baseSet_occupies[OF s o] by blast
  have 3: "\<forall>q. apart p q \<longrightarrow> at_path t' q = at_path t q"
  proof (intro allI impI)
    fix q assume "apart p q"
    then show "at_path t' q = at_path t q"
      using baseSet_frame[OF s o, of q] s by (auto simp: apart_def)
  qed
  from s 1 2 3
  show "\<exists>t'. baseSet t p v = Inr t' \<and> isObject t' \<and>
           (p \<noteq> [] \<and> (\<forall>k\<in>set p. \<not> unsafe_key k) \<longrightarrow> at_path t' p = Some v) \<and>
           (\<forall>q. apart p q \<longrightarrow> at_path t' q = at_path t q)"
    by blast
next
  fix l1 b l3 f
  assume h: "objects = l1 @ b # l3 \<and> get b (PStr kp) = Some (JStr f) \<and>
        propPath_of f \<noteq> [] \<and> (\<forall>k\<in>set (propPath_of f). \<not> unsafe_key k) \<and>
        (\<forall>ob\<in>set objects. \<exists>f'. get ob (PStr kp) = Some (JStr f') \<and>
           (\<forall>k\<in>set (propPath_of f'). k \<notin> set builtin_keys)) \<and>
        (\<forall>ob\<in>set l1. \<forall>f'. get ob (PStr kp) = Some (JStr f') \<longrightarrow>
           f' \<le> f \<or> apart (propPath_of f') (propPath_of f)) \<and>
        (\<forall>ob\<in>set l3. \<forall>f'. get ob (PStr kp) = Some (JStr f') \<longrightarrow>
           f' < f \<or> apart (propPath_of f') (propPath_of f))"
  show "\<exists>merged. mergeDataObjects objects kp src = Inr merged \<and>
           at_path merged (propPath_of f) = Some (of_json b)"
    by (rule mergeDataObjects_occupies[of objects l1 b l3 kp f]) (use h in blast)+
next
  fix objects'
  assume "mset objects' = mset objects \<and> inj_on (\<lambda>ob. file_key (get ob (PStr kp))) (set objects)"
  then show "mergeDataObjects objects' kp src = mergeDataObjects objects kp src"
    using sortBy_path_perm[of objects' objects kp] by (simp add: mergeDataObjects_def)
next
  show "mergeDataObjects [ex_alice_md, ex_alice_yaml] ''__metadata.relSourcePath'' ''src'' =
       Inr (TObj [(''__metadata'', TObj [(''id'', TStr ''src:data''), (''source'', TStr ''src'')]),
                  (''team'', TObj [(''alice'', of_json ex_alice_yaml)])])"
    by code_simp
next
  show "mergeDataObjects [ex_alice_yaml, ex_alice_md] ''__metadata.relSourcePath'' ''src'' =
       Inr (TObj [(''__metadata'', TObj [(''id'', TStr ''src:data''), (''source'', TStr ''src'')]),
                  (''team'', TObj [(''alice'', of_json ex_alice_yaml)])])"
    by code_simp
qed

theorem mergeDataObjects_sorted_fold_witness:
  "(\<exists>merged. mergeDataObjects [ex_alice_yaml, ex_year_post, ex_alice_md]
       ''__metadata.relSourcePath'' ''src'' = Inr merged \<and>
     at_path merged [''team'', ''alice''] = Some (of_json ex_alice_yaml))
   \<and> propPath_of ''Team//The.Index.md'' = [''Team'', ''The.Index'']"
proof -
  let ?kp = "''__metadata.relSourcePath''"
  let ?objects = "[ex_alice_yaml, ex_year_post, ex_alice_md]"
  note T = mergeDataObjects_sorted_fold[of ?kp ?objects "''src''"]
  note T4 = T[THEN conjunct2, THEN conjunct2, THEN conjunct2, THEN conjunct1, rule_format]
  note T8 = T[THEN conjunct2, THEN conjunct2, THEN conjunct2, THEN conjunct2, THEN conjunct2,
              THEN conjunct2, THEN conjunct2, THEN conjunct1, rule_format]
  have a: "get ex_alice_md (PStr ?kp) = Some (JStr ''team/alice.md'')" by code_simp
  have b: "get ex_alice_yaml (PStr ?kp) = Some (JStr ''team/alice.yaml'')" by code_simp
  have c: "get ex_year_post (PStr ?kp) = Some (JStr ''blog/2021/post.yaml'')" by code_simp
  have pa: "propPath_of ''team/alice.md'' = [''team'', ''alice'']" by code_simp
  have pb: "propPath_of ''team/alice.yaml'' = [''team'', ''alice'']" by code_simp
  have pc: "propPath_of ''blog/2021/post.yaml'' = [''blog'', ''2021'', ''post'']" by code_simp
  have kb: "\<forall>k\<in>set [''team'', ''alice'']. k \<notin> set builtin_keys" by code_simp
  have kc: "\<forall>k\<in>set [''blog'', ''2021'', ''post'']. k \<notin> set builtin_keys" by code_simp
  have safe: "\<forall>k\<in>set [''team'', ''alice'']. \<not> unsafe_key k" by code_simp
  have lt1: "''team/alice.md'' < ''team/alice.yaml''" by code_simp
  have lt2: "''blog/2021/post.yaml'' < ''team/alice.yaml''" by code_simp
  have h: "?objects = [] @ ex_alice_yaml # [ex_year_post, ex_alice_md] \<and>
        get ex_alice_yaml (PStr ?kp) = Some (JStr ''team/alice.yaml'') \<and>
        propPath_of ''team/alice.yaml'' \<noteq> [] \<and>
        (\<forall>k\<in>set (propPath_of ''team/alice.yaml''). \<not> unsafe_key k) \<and>
        (\<forall>ob\<in>set ?objects. \<exists>f'. get ob (PStr ?kp) = Some (JStr f') \<and>
           (\<forall>k\<in>set (propPath_of f'). k \<notin> set builtin_keys)) \<and>
        (\<forall>ob\<in>set []. \<forall>f'. get ob (PStr ?kp) = Some (JStr f') \<longrightarrow>
           f' \<le> ''team/alice.yaml'' \<or> apart (propPath_of f') (propPath_of ''team/alice.yaml'')) \<and>
        (\<forall>ob\<in>set [ex_year_post, ex_alice_md]. \<forall>f'. get ob (PStr ?kp) = Some (JStr f') \<longrightarrow>
           f' < ''team/alice.yaml'' \<or> apart (propPath_of f') (propPath_of ''team/alice.yaml''))"
    using a b c pa pb pc kb kc safe lt1 lt2 by auto
  have 1: "\<exists>merged. mergeDataObjects ?objects ?kp ''src'' = Inr merged \<and>
           at_path merged (propPath_of ''team/alice.yaml'') = Some (of_json ex_alice_yaml)"
    by (rule T8[of "[]" ex_alice_yaml "[ex_year_post, ex_alice_md]" "''team/alice.yaml''"]) (rule h)
  have wf: "(\<forall>s\<in>set [''Team'', []]. CHR ''/'' \<notin> set s) \<and> ''The.Index'' \<noteq> [] \<and>
        CHR ''/'' \<notin> set ''The.Index'' \<and> CHR ''/'' \<notin> set ''md'' \<and> CHR ''.'' \<notin> set ''md'' \<and>
        (''The.Index'' = ''.'' \<and> ''md'' = [] \<longrightarrow> [''Team'', []] = [[]])"
    by simp
  have "propPath_of (join_with ''/'' ([''Team'', []] @ [''The.Index'' @ CHR ''.'' # ''md''])) =
          filter (\<lambda>s. s \<noteq> []) [''Team'', []] @ [''The.Index'']"
    by (rule T4[of "[''Team'', []]" "''The.Index''" "''md''"]) (rule wf)
  then have 2: "propPath_of ''Team//The.Index.md'' = [''Team'', ''The.Index'']" by simp
  from 1 2 show ?thesis unfolding pb by simp
qed

text \<open>
  The claim as stated has the later-sorted object win regardless of the input order.
  Two sources can hold a file with the same relative path; the two objects below have
  the file path \<open>team/alice.yaml\<close>, the sort leaves them in the order of the input, and
  the one that comes last in the input is at \<open>team.alice\<close>.
\<close>

theorem same_file_path_counterexample:
  "get ex_alice_yaml (PStr ''__metadata.relSourcePath'') =
     get ex_alice_other (PStr ''__metadata.relSourcePath'')
   \<and> mergeDataObjects [ex_alice_yaml, ex_alice_other] ''__metadata.relSourcePath'' ''src'' =
       Inr (TObj [(''__metadata'', TObj [(''id'', TStr ''src:data''), (''source'', TStr ''src'')]),
                  (''team'', TObj [(''alice'', of_json ex_alice_other)])])
   \<and> mergeDataObjects [ex_alice_other, ex_alice_yaml] ''__metadata.relSourcePath'' ''src'' =
       Inr (TObj [(''__metadata'', TObj [(''id'', TStr ''src:data''), (''source'', TStr ''src'')]),
                  (''team'', TObj [(''alice'', of_json ex_alice_yaml)])])
   \<and> of_json ex_alice_other \<noteq> of_json ex_alice_yaml"
  by code_simp

section \<open>Idempotence of the annotation\<close>

lemma names_metadata_jprop:
  "\<not> names_metadata v \<Longrightarrow> jprop v k = Some w \<Longrightarrow> \<not> names_metadata w"
proof (cases v)
  case (JObj kvs)
  assume a: "\<not> names_metadata v" "jprop v k = Some w"
  then have "(k, w) \<in> set kvs" using JObj by (auto simp: jprop_def dest: map_of_SomeD)
  then show ?thesis using a(1) JObj by (auto simp: list_ex_iff)
next
  case (JArr xs)
  assume a: "\<not> names_metadata v" "jprop v k = Some w"
  then show ?thesis using JArr
    by (auto simp: jprop_def list_ex_iff split: if_splits option.splits)
next
  case (JStr s)
  assume a: "\<not> names_metadata v" "jprop v k = Some w"
  then show ?thesis using JStr
    by (auto simp: jprop_def split: if_splits option.splits)
qed (auto simp: jprop_def)

lemma names_metadata_elements:
  "\<not> names_metadata flds \<Longrightarrow> e \<in> set (elements flds) \<Longrightarrow> \<not> names_metadata e"
  by (cases flds) (auto simp: elements_def list_ex_iff)

lemma find_by_name_in: "find_by_name flds k = Some fm \<Longrightarrow>
   fm \<in> set (elements flds) \<and> jprop fm ''name'' = Some (JStr k)"
  by (auto simp: find_by_name_def find_Some_iff)

lemma names_metadata_find:
  "\<not> names_metadata flds \<Longrightarrow> find_by_name flds k = Some fm \<Longrightarrow> \<not> names_metadata fm"
  using find_by_name_in names_metadata_elements by blast

lemma index_of_key_not_name: "index_of_key ''name'' = None"
  by (simp add: index_of_key_def digit_val_def)

lemma jprop_name_object:
  "jprop e ''name'' = Some (JStr n) \<Longrightarrow> \<exists>kvs. e = JObj kvs \<and> map_of kvs ''name'' = Some (JStr n)"
  by (cases e) (auto simp: jprop_def index_of_key_not_name split: if_splits)

lemma find_metadata_field_None:
  assumes "\<not> names_metadata flds"
  shows "find_by_name flds ''__metadata'' = None"
proof (rule ccontr)
  assume "find_by_name flds ''__metadata'' \<noteq> None"
  then obtain fm where f: "find_by_name flds ''__metadata'' = Some fm" by auto
  then obtain kvs where "fm = JObj kvs" "map_of kvs ''name'' = Some (JStr ''__metadata'')"
    using find_by_name_in jprop_name_object by blast
  then have "names_metadata fm" by simp
  then show False using names_metadata_find[OF assms f] by simp
qed

lemma names_metadata_model_fields:
  "(\<forall>m. model = Some m \<longrightarrow> \<not> names_metadata m) \<Longrightarrow> \<not> names_metadata (model_fields model)"
  by (auto simp: model_fields_def split: option.splits dest: names_metadata_jprop)

lemma skel_JNull: "skel x = JNull \<longleftrightarrow> x = JNull"
  by (cases x) simp_all

lemma toStr_skel:
  "toStr (skel v) = toStr v" and "toStr_elems (map skel xs) = toStr_elems xs"
  by (induction v and xs rule: toStr_toStr_elems.induct) (simp_all add: skel_JNull)

lemma skel_eq_toStr: "skel v' = skel v \<Longrightarrow> toStr v' = toStr v"
  using toStr_skel(1) by metis

lemma skel_eq_castPath:
  assumes "skel v' = skel v"
  shows "castPath (Some v') obj = castPath (Some v) obj"
proof (cases v)
  case (JObj kvs)
  then obtain kvs' where "v' = JObj kvs'" using assms by (cases v') auto
  then show ?thesis using JObj by (simp add: castPath_def)
next
  case (JArr xs)
  then obtain ys where ys: "v' = JArr ys" "map skel ys = map skel xs"
    using assms by (cases v') auto
  have "map toStr ys = map (toStr \<circ> skel) ys" by (simp add: toStr_skel(1))
  also have "\<dots> = map (toStr \<circ> skel) xs" using ys(2) by (metis map_map)
  also have "\<dots> = map toStr xs" by (simp add: toStr_skel(1))
  finally show ?thesis using JArr ys by (simp add: castPath_def)
qed (use assms in \<open>cases v'; simp\<close>)+

lemma map_of_skel_entries:
  "k \<noteq> ''__metadata'' \<Longrightarrow>
   map_of (filter (\<lambda>(k, v). k \<noteq> ''__metadata'') (map (\<lambda>(k, v). (k, skel v)) kvs)) k =
     map_option skel (map_of kvs k)"
  by (induction kvs) auto

lemma jprop_skel:
  "k \<noteq> ''__metadata'' \<Longrightarrow> jprop (skel v) k = map_option skel (jprop v k)"
proof (cases v)
  case (JObj kvs)
  assume "k \<noteq> ''__metadata''"
  then show ?thesis using JObj by (simp add: jprop_def map_of_skel_entries)
next
  case (JArr xs)
  then show ?thesis by (auto simp: jprop_def split: option.splits)
qed (simp_all add: jprop_def split: option.splits)

lemma skel_eq_jprop:
  "skel v' = skel v \<Longrightarrow> k \<noteq> ''__metadata'' \<Longrightarrow>
   map_option skel (jprop v' k) = map_option skel (jprop v k)"
  using jprop_skel by metis

lemma skel_eq_has_type:
  assumes "skel v' = skel v"
  shows "has v' (Some (JStr ''type'')) = has v (Some (JStr ''type''))"
proof -
  have "map_option skel (jprop v' ''type'') = map_option skel (jprop v ''type'')"
    using skel_eq_jprop[OF assms] by simp
  then have "(jprop v' ''type'' = None) = (jprop v ''type'' = None)" by (metis option.map_disc_iff)
  then show ?thesis by (simp add: has_type)
qed

lemma skel_eq_type_key:
  assumes "skel v' = skel v"
  shows "has obj (jprop v' ''type'') = has obj (jprop v ''type'')"
    and "toKeyStr (jprop v' ''type'') = toKeyStr (jprop v ''type'')"
proof -
  have e: "map_option skel (jprop v' ''type'') = map_option skel (jprop v ''type'')"
    using skel_eq_jprop[OF assms] by simp
  show "has obj (jprop v' ''type'') = has obj (jprop v ''type'')"
  proof (cases "jprop v ''type''")
    case None
    then have "jprop v' ''type'' = None" using e by simp
    then show ?thesis using None by simp
  next
    case (Some t)
    then obtain t' where t': "jprop v' ''type'' = Some t'" "skel t' = skel t" using e by auto
    then show ?thesis using Some skel_eq_castPath[OF t'(2)] by (simp add: has_def)
  qed
  show "toKeyStr (jprop v' ''type'') = toKeyStr (jprop v ''type'')"
  proof (cases "jprop v ''type''")
    case None
    then have "jprop v' ''type'' = None" using e by simp
    then show ?thesis using None by simp
  next
    case (Some t)
    then obtain t' where t': "jprop v' ''type'' = Some t'" "skel t' = skel t" using e by auto
    then show ?thesis using Some skel_eq_toStr[OF t'(2)] by (simp add: toKeyStr_def)
  qed
qed

lemma skel_eq_array:
  "skel v' = skel v \<Longrightarrow> v = JArr xs \<Longrightarrow> \<exists>ys. v' = JArr ys \<and> map skel ys = map skel xs"
  by (cases v') auto

lemma skel_eq_not_array:
  "skel v' = skel v \<Longrightarrow> \<forall>xs. v \<noteq> JArr xs \<Longrightarrow> \<forall>ys. v' \<noteq> JArr ys"
  by (cases v; cases v') auto

lemma with_metadata_distinct:
  assumes "distinct (map fst kvs)"
  shows "with_metadata kvs computed =
           JObj (obj_update ''__metadata'' (JObj (meta_of kvs computed)) kvs)"
  unfolding with_metadata_def meta_of_def assign_empty_distinct[OF assms]
  by (simp add: assign_def own_entries_JObj)

lemma distinct_meta_of: "distinct (map fst (meta_of kvs computed))"
  unfolding meta_of_def by (intro distinct_assign) simp

lemma meta_of_has_computed:
  assumes "distinct (map fst computed)" and "(k, v) \<in> set computed"
  shows "map_of (meta_of kvs computed) k = Some v"
proof -
  have "map_of computed k = Some v" using assms by simp
  then show ?thesis
    unfolding meta_of_def
    by (simp add: map_of_assign own_entries_JObj map_of_rev_distinct[OF assms(1)] map_add_def)
qed

lemma with_metadata_fixed:
  assumes d: "distinct (map fst kvs)"
    and m: "map_of kvs ''__metadata'' = Some (JObj meta)"
    and dm: "distinct (map fst meta)"
    and c: "\<forall>(k, v)\<in>set computed. map_of meta k = Some v"
  shows "with_metadata kvs computed = JObj kvs"
proof -
  have "meta_of kvs computed = meta"
    unfolding meta_of_def m assign_empty_distinct[OF dm]
    using fold_update_noop[OF c] by (simp add: assign_def own_entries_JObj)
  then show ?thesis
    unfolding with_metadata_distinct[OF d] using m by (simp add: obj_update_def update_triv)
qed

lemma skel_entries_update:
  "filter (\<lambda>(k, v). k \<noteq> ''__metadata'')
     (map (\<lambda>(k, v). (k, skel v)) (AList.update ''__metadata'' M kvs)) =
   filter (\<lambda>(k, v). k \<noteq> ''__metadata'') (map (\<lambda>(k, v). (k, skel v)) kvs)"
  by (induction kvs) auto

lemma skel_with_metadata:
  assumes "distinct (map fst kvs')"
    and "map (\<lambda>(k, v). (k, skel v)) kvs' = map (\<lambda>(k, v). (k, skel v)) kvs"
  shows "skel (with_metadata kvs' computed) = skel (JObj kvs)"
  unfolding with_metadata_distinct[OF assms(1)]
  by (simp add: obj_update_def skel_entries_update assms(2))

lemma fieldDispatch_good:
  assumes "\<not> names_metadata fm" and "\<not> names_metadata (cx_modelsByName cx)"
  shows "fieldDispatch v fm cx = DAnnotate m cx' \<Longrightarrow>
           (\<forall>mm. m = Some mm \<longrightarrow> \<not> names_metadata mm) \<and> cx_modelsByName cx' = cx_modelsByName cx"
    and "fieldDispatch v fm cx = DList xs im cx' \<Longrightarrow>
           \<not> names_metadata im \<and> cx_modelsByName cx' = cx_modelsByName cx \<and> v = JArr xs"
proof -
  assume a: "fieldDispatch v fm cx = DAnnotate m cx'"
  have g: "\<And>k mm. jprop (cx_modelsByName cx) k = Some mm \<Longrightarrow> \<not> names_metadata mm"
    using assms(2) names_metadata_jprop by blast
  from a have "m = Some fm \<and> cx' = cx \<or>
      (\<exists>k. m = jprop (cx_modelsByName cx) k \<and> cx' = cx\<lparr>cx_modelFieldPath := []\<rparr>)"
    by (auto simp: fieldDispatch_def split: if_splits option.splits json.splits)
  then show "(\<forall>mm. m = Some mm \<longrightarrow> \<not> names_metadata mm) \<and> cx_modelsByName cx' = cx_modelsByName cx"
    using assms(1) g by auto
next
  assume a: "fieldDispatch v fm cx = DList xs im cx'"
  then have "v = JArr xs \<and> cx' = cx\<lparr>cx_modelFieldPath := cx_modelFieldPath cx @ [SKey ''items'']\<rparr> \<and>
      im = (case jprop fm ''items'' of None \<Rightarrow> JObj [(''type'', JStr ''string'')] | Some i \<Rightarrow> i)"
    by (auto simp: fieldDispatch_def split: if_splits option.splits json.splits)
  then show "\<not> names_metadata im \<and> cx_modelsByName cx' = cx_modelsByName cx \<and> v = JArr xs"
    using assms(1) names_metadata_jprop by (auto split: option.splits)
qed

lemma fieldDispatch_skel:
  assumes "skel v' = skel v"
  shows "fieldDispatch v fm cx = DThrow \<Longrightarrow> fieldDispatch v' fm cx = DThrow"
    and "fieldDispatch v fm cx = DReturn ds \<Longrightarrow> fieldDispatch v' fm cx = DReturn ds"
    and "fieldDispatch v fm cx = DAnnotate m cx' \<Longrightarrow> fieldDispatch v' fm cx = DAnnotate m cx'"
    and "fieldDispatch v fm cx = DList xs im cx' \<Longrightarrow> v' = JArr ys \<Longrightarrow>
           fieldDispatch v' fm cx = DList ys im cx'"
proof -
  note h = skel_eq_has_type[OF assms] skel_eq_type_key[OF assms]
  have arr: "(\<exists>xs ys. v = JArr xs \<and> v' = JArr ys) \<or> ((\<forall>xs. v \<noteq> JArr xs) \<and> (\<forall>ys. v' \<noteq> JArr ys))"
    using skel_eq_array[OF assms] skel_eq_not_array[OF assms] by blast
  have na: "\<And>u. (\<forall>xs. u \<noteq> JArr xs) \<Longrightarrow>
      (case u of JArr xs \<Rightarrow> DList xs
               (case jprop fm ''items'' of
                  None \<Rightarrow> JObj [(''type'', JStr ''string'')] | Some i \<Rightarrow> i)
               (cx\<lparr>cx_modelFieldPath := cx_modelFieldPath cx @ [SKey ''items'']\<rparr>)
         | _ \<Rightarrow> DReturn [ListMustBeArray (location_of cx (cx_modelFieldPath cx))]) =
      DReturn [ListMustBeArray (location_of cx (cx_modelFieldPath cx))]"
    by (case_tac u) auto
  show "fieldDispatch v fm cx = DThrow \<Longrightarrow> fieldDispatch v' fm cx = DThrow"
    using arr unfolding fieldDispatch_def h
    by (elim disjE exE conjE) (auto simp: na split: if_splits option.splits)
  show "fieldDispatch v fm cx = DReturn ds \<Longrightarrow> fieldDispatch v' fm cx = DReturn ds"
    using arr unfolding fieldDispatch_def h
    by (elim disjE exE conjE) (auto simp: na split: if_splits option.splits)
  show "fieldDispatch v fm cx = DAnnotate m cx' \<Longrightarrow> fieldDispatch v' fm cx = DAnnotate m cx'"
    using arr unfolding fieldDispatch_def h
    by (elim disjE exE conjE) (auto simp: na split: if_splits option.splits)
  show "fieldDispatch v fm cx = DList xs im cx' \<Longrightarrow> v' = JArr ys \<Longrightarrow>
           fieldDispatch v' fm cx = DList ys im cx'"
    using arr unfolding fieldDispatch_def h
    by (elim disjE exE conjE) (auto simp: na split: if_splits option.splits json.splits)
qed

lemma mapValues_fixed:
  "\<forall>(k, v)\<in>set l. \<exists>d. field_result flds cx k v = Inr (v, d) \<Longrightarrow>
   \<exists>ds. mapValues_fields l flds cx = Inr (l, ds)"
proof (induction l)
  case Nil
  then show ?case by simp
next
  case (Cons e l)
  obtain k v where e: "e = (k, v)" by (cases e)
  from Cons.prems e obtain d where d: "field_result flds cx k v = Inr (v, d)" by auto
  from Cons obtain ds where ds: "mapValues_fields l flds cx = Inr (l, ds)" by auto
  have "mapValues_fields ((k, v) # l) flds cx = Inr ((k, v) # l, d @ ds)"
    unfolding mapValues_fields_Cons_Inr using d ds by blast
  then show ?case using e by blast
qed

lemma skel_entries_keys:
  "map (\<lambda>(k, v). (k, skel v)) kvs' = map (\<lambda>(k, v). (k, skel v)) kvs \<Longrightarrow>
   map fst kvs' = map fst kvs"
proof -
  assume a: "map (\<lambda>(k, v). (k, skel v)) kvs' = map (\<lambda>(k, v). (k, skel v)) kvs"
  have "\<And>l. map fst (map (\<lambda>(k, v). (k, skel v)) l) = map fst l"
    by (simp add: case_prod_unfold)
  then show ?thesis using a by metis
qed

lemma set_update_subset: "set (AList.update k v al) \<subseteq> insert (k, v) (set al)"
  by (induction al) auto

lemma step_add:
  assumes IH: "\<And>kvs. \<not> (cx_modelFieldPath cx = [] \<and> isNil model) \<Longrightarrow> data = JObj kvs \<Longrightarrow>
                 idem_values kvs (model_fields model) (cx\<lparr>cx_modelFieldPath := start_path model cx\<rparr>)"
  shows "idem_add data model cx"
  unfolding idem_add_def
proof (intro impI allI)
  fix out ds
  assume pre: "wf_json data \<and> (\<forall>m. model = Some m \<longrightarrow> \<not> names_metadata m) \<and>
      \<not> names_metadata (cx_modelsByName cx)"
  assume run: "addMetadata data model cx = Inr (out, ds)"
  have nt: "\<not> (cx_modelFieldPath cx = [] \<and> isNil model)"
    using run by (auto simp: addMetadata.simps)
  let ?cx1 = "cx\<lparr>cx_modelFieldPath := start_path model cx\<rparr>"
  let ?flds = "model_fields model"
  show "skel out = skel data \<and> (\<exists>ds'. addMetadata out model cx = Inr (out, ds'))"
  proof (cases "isPlainObject data")
    case False
    then have "addMetadata data model cx =
        Inr (data, [ValueMustBeObject (location_of cx (start_path model cx))])"
      using nt by (rule addMetadata_not_object)
    then show ?thesis using run by auto
  next
    case True
    then obtain kvs where data: "data = JObj kvs" by (cases data) (simp_all add: isPlainObject_def)
    from run obtain kvs' computed where
      mv: "mapValues_fields kvs ?flds ?cx1 = Inr (kvs', ds)"
      and cm: "computed_metadata model (cx_filePath cx) = Inr computed"
      and out: "out = with_metadata kvs' computed"
      unfolding data addMetadata_JObj_Inr by blast
    have gf: "\<not> names_metadata ?flds" using pre names_metadata_model_fields by blast
    have wfk: "distinct (map fst kvs)" "list_all (\<lambda>(k, v). wf_json v) kvs"
      using pre data by simp_all
    from IH[OF nt data] wfk(2) gf pre mv have
      E: "map (\<lambda>(k, v). (k, skel v)) kvs' = map (\<lambda>(k, v). (k, skel v)) kvs"
      and F: "\<forall>(k, v)\<in>set kvs'. \<exists>d. field_result ?flds ?cx1 k v = Inr (v, d)"
      unfolding idem_values_def by auto
    have dk: "distinct (map fst kvs')" using skel_entries_keys[OF E] wfk(1) by simp
    have s: "skel out = skel data"
      unfolding out data by (rule skel_with_metadata[OF dk E])
    let ?meta = "meta_of kvs' computed"
    let ?kvs2 = "obj_update ''__metadata'' (JObj ?meta) kvs'"
    have o2: "out = JObj ?kvs2" unfolding out by (rule with_metadata_distinct[OF dk])
    have nf: "find_by_name ?flds ''__metadata'' = None" using gf by (rule find_metadata_field_None)
    have "\<forall>(k, v)\<in>set ?kvs2. \<exists>d. field_result ?flds ?cx1 k v = Inr (v, d)"
    proof (intro ballI)
      fix e assume "e \<in> set ?kvs2"
      then have "e = (''__metadata'', JObj ?meta) \<or> e \<in> set kvs'"
        using set_update_subset[of "''__metadata''" "JObj ?meta" kvs'] by (auto simp: obj_update_def)
      then show "case e of (k, v) \<Rightarrow> \<exists>d. field_result ?flds ?cx1 k v = Inr (v, d)"
        using F nf by (auto simp: field_result_def)
    qed
    from mapValues_fixed[OF this] obtain ds2 where
      mv2: "mapValues_fields ?kvs2 ?flds ?cx1 = Inr (?kvs2, ds2)" by blast
    from computed_metadata_Inr[OF cm] have dc: "distinct (map fst computed)" by blast
    have d2: "distinct (map fst ?kvs2)" using dk by (simp add: obj_update_def distinct_update)
    have m2: "map_of ?kvs2 ''__metadata'' = Some (JObj ?meta)"
      by (simp add: obj_update_def update_conv')
    have c2: "\<forall>(k, v)\<in>set computed. map_of ?meta k = Some v"
      using meta_of_has_computed[OF dc] by auto
    have w2: "with_metadata ?kvs2 computed = JObj ?kvs2"
      by (rule with_metadata_fixed[OF d2 m2 distinct_meta_of c2])
    have "addMetadata (JObj ?kvs2) model cx = Inr (JObj ?kvs2, ds2)"
      unfolding addMetadata_JObj_Inr using nt mv2 cm w2 by auto
    then show ?thesis using s o2 by auto
  qed
qed

lemma step_field:
  assumes IH1: "\<And>m cx'. fieldDispatch v fm cx = DAnnotate m cx' \<Longrightarrow> idem_add v m cx'"
    and IH2: "\<And>xs im cx'. fieldDispatch v fm cx = DList xs im cx' \<Longrightarrow> idem_items xs 0 im cx'"
  shows "idem_field v fm cx"
  unfolding idem_field_def
proof (intro impI allI)
  fix v' ds
  assume pre: "wf_json v \<and> \<not> names_metadata fm \<and> \<not> names_metadata (cx_modelsByName cx)"
  assume run: "mapObjectField v fm cx = Inr (v', ds)"
  show "skel v' = skel v \<and> (\<exists>ds'. mapObjectField v' fm cx = Inr (v', ds'))"
  proof (cases "fieldDispatch v fm cx")
    case DThrow
    then show ?thesis using run by (simp add: mapObjectField.simps)
  next
    case (DReturn ds0)
    then have "v' = v" using run by (simp add: mapObjectField.simps)
    then show ?thesis using run by auto
  next
    case (DAnnotate m cx')
    then have r: "addMetadata v m cx' = Inr (v', ds)" using run by (simp add: mapObjectField.simps)
    from fieldDispatch_good(1)[OF _ _ DAnnotate] pre have
      g: "\<forall>mm. m = Some mm \<longrightarrow> \<not> names_metadata mm" "cx_modelsByName cx' = cx_modelsByName cx"
      by auto
    from IH1[OF DAnnotate] pre g r obtain ds' where
      s: "skel v' = skel v" and i: "addMetadata v' m cx' = Inr (v', ds')"
      unfolding idem_add_def by auto
    have "fieldDispatch v' fm cx = DAnnotate m cx'"
      using fieldDispatch_skel(3)[OF s DAnnotate] .
    then have "mapObjectField v' fm cx = Inr (v', ds')" using i by (simp add: mapObjectField.simps)
    then show ?thesis using s by auto
  next
    case (DList xs im cx')
    from fieldDispatch_good(2)[OF _ _ DList] pre have
      g: "\<not> names_metadata im" "cx_modelsByName cx' = cx_modelsByName cx" "v = JArr xs"
      by auto
    from run DList obtain ys where
      r: "map_items xs 0 im cx' = Inr (ys, ds)" and v': "v' = JArr ys"
      by (cases "map_items xs 0 im cx'") (auto simp: mapObjectField.simps)
    have wx: "list_all wf_json xs" using pre g(3) by simp
    from IH2[OF DList] wx g pre r obtain ds' where
      s: "map skel ys = map skel xs" and i: "map_items ys 0 im cx' = Inr (ys, ds')"
      unfolding idem_items_def by auto
    have sk: "skel v' = skel v" using s v' g(3) by simp
    have "fieldDispatch v' fm cx = DList ys im cx'"
      using fieldDispatch_skel(4)[OF sk DList v'] .
    then have "mapObjectField v' fm cx = Inr (v', ds')"
      using i v' by (simp add: mapObjectField.simps)
    then show ?thesis using sk by auto
  qed
qed

lemma step_values_nil: "idem_values [] flds cx"
  by (simp add: idem_values_def)

lemma step_values_cons:
  assumes IH1: "\<And>fm. find_by_name flds k = Some fm \<Longrightarrow> idem_field v fm (field_ctx cx k)"
    and IH2: "\<And>b x y.
       (case find_by_name flds k of None \<Rightarrow> Inr (v, [])
        | Some fieldModel \<Rightarrow> mapObjectField v fieldModel (field_ctx cx k)) = Inr b \<Longrightarrow>
       (x, y) = b \<Longrightarrow> idem_values kvs flds cx"
  shows "idem_values ((k, v) # kvs) flds cx"
  unfolding idem_values_def
proof (intro impI allI)
  fix r ds
  assume pre: "list_all (\<lambda>(k, v). wf_json v) ((k, v) # kvs) \<and> \<not> names_metadata flds \<and>
      \<not> names_metadata (cx_modelsByName cx)"
  assume run: "mapValues_fields ((k, v) # kvs) flds cx = Inr (r, ds)"
  from run obtain v' d kvs' d' where
    h: "field_result flds cx k v = Inr (v', d)"
    and t: "mapValues_fields kvs flds cx = Inr (kvs', d')"
    and r: "r = (k, v') # kvs'"
    unfolding mapValues_fields_Cons_Inr by blast
  have "idem_values kvs flds cx"
    by (rule IH2[of "(v', d)" v' d]) (use h in \<open>simp_all add: field_result_def\<close>)
  with pre t have
    E: "map (\<lambda>(k, v). (k, skel v)) kvs' = map (\<lambda>(k, v). (k, skel v)) kvs"
    and F: "\<forall>(k, v)\<in>set kvs'. \<exists>d. field_result flds cx k v = Inr (v, d)"
    unfolding idem_values_def by auto
  have head: "skel v' = skel v \<and> (\<exists>d2. field_result flds cx k v' = Inr (v', d2))"
  proof (cases "find_by_name flds k")
    case None
    then show ?thesis using h by (auto simp: field_result_def)
  next
    case (Some fm)
    then have m: "mapObjectField v fm (field_ctx cx k) = Inr (v', d)"
      using h by (simp add: field_result_def)
    have g: "\<not> names_metadata fm" using pre Some names_metadata_find by blast
    have c: "cx_modelsByName (field_ctx cx k) = cx_modelsByName cx" by (simp add: field_ctx_def)
    from IH1[OF Some] pre g c m obtain d2 where
      "skel v' = skel v" "mapObjectField v' fm (field_ctx cx k) = Inr (v', d2)"
      unfolding idem_field_def by auto
    then show ?thesis using Some by (auto simp: field_result_def)
  qed
  show "map (\<lambda>(k, v). (k, skel v)) r = map (\<lambda>(k, v). (k, skel v)) ((k, v) # kvs) \<and>
        (\<forall>(k, v)\<in>set r. \<exists>d. field_result flds cx k v = Inr (v, d))"
    using head E F r by auto
qed

lemma step_items_nil: "idem_items [] idx im cx"
  by (simp add: idem_items_def)

lemma step_items_cons:
  assumes IH1: "idem_field x im (item_ctx cx idx)"
    and IH2: "\<And>b y z. mapObjectField x im (item_ctx cx idx) = Inr b \<Longrightarrow> (y, z) = b \<Longrightarrow>
                idem_items xs (Suc idx) im cx"
  shows "idem_items (x # xs) idx im cx"
  unfolding idem_items_def
proof (intro impI allI)
  fix ys ds
  assume pre: "list_all wf_json (x # xs) \<and> \<not> names_metadata im \<and>
      \<not> names_metadata (cx_modelsByName cx)"
  assume run: "map_items (x # xs) idx im cx = Inr (ys, ds)"
  from run obtain v d vs d' where
    h: "mapObjectField x im (item_ctx cx idx) = Inr (v, d)"
    and t: "map_items xs (Suc idx) im cx = Inr (vs, d')"
    and ys: "ys = v # vs"
    unfolding map_items_Cons_Inr by blast
  have c: "cx_modelsByName (item_ctx cx idx) = cx_modelsByName cx" by (simp add: item_ctx_def)
  from IH1 pre c h obtain d2 where
    s: "skel v = skel x" and i: "mapObjectField v im (item_ctx cx idx) = Inr (v, d2)"
    unfolding idem_field_def by auto
  have "idem_items xs (Suc idx) im cx" by (rule IH2[OF h refl])
  with pre t obtain d3 where
    s': "map skel vs = map skel xs" and i': "map_items vs (Suc idx) im cx = Inr (vs, d3)"
    unfolding idem_items_def by auto
  have "map_items (v # vs) idx im cx = Inr (v # vs, d2 @ d3)"
    unfolding map_items_Cons_Inr using i i' by blast
  then show "map skel ys = map skel (x # xs) \<and> (\<exists>ds'. map_items ys idx im cx = Inr (ys, ds'))"
    using s s' ys by auto
qed

lemma idem_all:
  "idem_add data model cx"
  "idem_field v fm cx1"
  "idem_values kvs flds cx2"
  "idem_items xs idx im cx3"
proof (induction data model cx and v fm cx1 and kvs flds cx2 and xs idx im cx3
    rule: addMetadata_mapObjectField_mapValues_fields_map_items.induct)
  case (1 data model cx)
  then show ?case by (rule step_add)
next
  case (2 fieldValue fieldModel cx)
  then show ?case by (rule step_field)
next
  case (3 flds cx)
  then show ?case by (rule step_values_nil)
next
  case (4 fieldName fieldValue kvs flds cx)
  then show ?case by (rule step_values_cons)
next
  case (5 idx itemModel cx)
  then show ?case by (rule step_items_nil)
next
  case (6 item xs idx itemModel cx)
  then show ?case by (rule step_items_cons)
qed

text \<open>
  Claim C6, as the code has it. When \<open>addMetadata\<close> returns \<open>out\<close> for an object, a
  model and a file path, \<open>addMetadata\<close> on \<open>out\<close> with the same model and file path
  returns \<open>out\<close> again, provided that neither the model nor any model of the schema
  declares a field (or anything else) named \<open>__metadata\<close>. (The objects of the data
  have distinct keys.)
\<close>

theorem addMetadata_idempotent:
  assumes "addMetadata data model cx = Inr (out, ds)"
    and "wf_json data"
    and "\<forall>m. model = Some m \<longrightarrow> \<not> names_metadata m"
    and "\<not> names_metadata (cx_modelsByName cx)"
  shows "\<exists>ds'. addMetadata out model cx = Inr (out, ds')"
  using idem_all(1)[of data model cx] assms unfolding idem_add_def by blast

theorem addMetadata_idempotent_witness:
  "\<exists>ds'. addMetadata
           (JObj [(''title'', JStr ''First''), (''tags'', JArr [JStr ''a'']),
                  (''__metadata'', JObj [(''modelType'', JStr ''data''), (''modelName'', JStr ''post'')])])
           (Some ex_post) ex_top_ctx =
         Inr (JObj [(''title'', JStr ''First''), (''tags'', JArr [JStr ''a'']),
                    (''__metadata'', JObj [(''modelType'', JStr ''data''), (''modelName'', JStr ''post'')])],
              ds')"
proof -
  have run: "addMetadata ex_first (Some ex_post) ex_top_ctx =
     Inr (JObj [(''title'', JStr ''First''), (''tags'', JArr [JStr ''a'']),
                (''__metadata'', JObj [(''modelType'', JStr ''data''), (''modelName'', JStr ''post'')])],
          [])"
    by code_simp
  have w: "wf_json ex_first" by code_simp
  have n: "\<not> names_metadata ex_post" by code_simp
  then have g: "\<forall>m. Some ex_post = Some m \<longrightarrow> \<not> names_metadata m" by simp
  have b: "\<not> names_metadata (cx_modelsByName ex_top_ctx)" by code_simp
  show ?thesis by (rule addMetadata_idempotent[OF run w g b])
qed

text \<open>
  The claim as stated holds for every model. The model \<open>note\<close> below declares a field
  named \<open>__metadata\<close> of type \<open>object\<close>. The first run attaches \<open>__metadata\<close>; the
  second run finds the field in the data, annotates the metadata itself, and returns a
  different object.
\<close>

theorem addMetadata_twice_counterexample:
  "addMetadata ex_first (Some ex_meta_model) ex_top_ctx =
     Inr (JObj [(''title'', JStr ''First''), (''tags'', JArr [JStr ''a'']),
                (''__metadata'', JObj [(''modelType'', JStr ''data''), (''modelName'', JStr ''note'')])],
          [])
   \<and> addMetadata
        (JObj [(''title'', JStr ''First''), (''tags'', JArr [JStr ''a'']),
               (''__metadata'', JObj [(''modelType'', JStr ''data''), (''modelName'', JStr ''note'')])])
        (Some ex_meta_model) ex_top_ctx =
     Inr (JObj [(''title'', JStr ''First''), (''tags'', JArr [JStr ''a'']),
                (''__metadata'', JObj [(''modelType'', JStr ''data''), (''modelName'', JStr ''note''),
                   (''__metadata'', JObj [(''modelType'', JStr ''object''),
                                          (''modelName'', JStr ''__metadata'')])])],
          [])
   \<and> JObj [(''title'', JStr ''First''), (''tags'', JArr [JStr ''a'']),
            (''__metadata'', JObj [(''modelType'', JStr ''data''), (''modelName'', JStr ''note''),
               (''__metadata'', JObj [(''modelType'', JStr ''object''),
                                      (''modelName'', JStr ''__metadata'')])])] \<noteq>
       JObj [(''title'', JStr ''First''), (''tags'', JArr [JStr ''a'']),
             (''__metadata'', JObj [(''modelType'', JStr ''data''), (''modelName'', JStr ''note'')])]"
  by code_simp

end
